theory Spec2Isabelle
  imports Main
begin

section \<open>The deep-research agent: data model\<close>

text \<open>
  A shallow embedding of \<^verbatim>\<open>supabase/functions/deep-research/index.ts\<close> (the agent
  version of the edge function). A JavaScript string is modelled as a \<^typ>\<open>string\<close>: one
  list element stands for one UTF-16 code unit, so \<^term>\<open>length\<close> is \<^verbatim>\<open>.length\<close>.
  The counters are natural numbers; \<^verbatim>\<open>maxTokens\<close> and \<^verbatim>\<open>priority\<close> are integers.
\<close>

record SearchResult =
  title :: string
  url :: string
  content :: string

text \<open>\<^verbatim>\<open>KnowledgeItem.type\<close> is one of \<^verbatim>\<open>'search' | 'url' | 'reflection'\<close>.\<close>

datatype KnowledgeType = search | url_type | reflection

record KnowledgeItem =
  question_k :: string
  answer :: string
  sources :: "string list"
  type_k :: KnowledgeType

record GapQuestion =
  question :: string
  priority :: int
  reason :: string

text \<open>
  \<^verbatim>\<open>Set<string>\<close> keeps its elements in insertion order; it is a list without
  repetition, with \<^verbatim>\<open>has\<close>, \<^verbatim>\<open>add\<close> and \<^verbatim>\<open>size\<close>.
\<close>

type_synonym string_set = "string list"

definition Set_has :: "string_set \<Rightarrow> string \<Rightarrow> bool" where
  "Set_has s x = (x \<in> set s)"

definition Set_add :: "string_set \<Rightarrow> string \<Rightarrow> string_set" where
  "Set_add s x = (if Set_has s x then s else s @ [x])"

definition Set_size :: "string_set \<Rightarrow> nat" where
  "Set_size s = length s"

record AgentState =
  originalQuestion :: string
  currentQuestion :: string
  gaps :: "GapQuestion list"
  knowledge :: "KnowledgeItem list"
  visitedUrls :: string_set
  searchQueries :: string_set
  step :: nat
  totalTokensUsed :: nat
  failedAttempts :: nat

text \<open>
  \<^verbatim>\<open>AgentAction\<close>: the value \<^verbatim>\<open>JSON.parse\<close> returns is cast to this interface
  without any check, so it need not have the declared shape. The tag and the reasoning
  are the texts that the loop compares with the four tags and sends in the \<open>thinking\<close>
  event: the tag is an arbitrary string, and one that is absent or no string equals none
  of the four. A payload is \<open>None\<close> when the test
  \<^verbatim>\<open>action.action === ... && payload\<close> finds it falsy (absent, \<^verbatim>\<open>null\<close>, \<^verbatim>\<open>false\<close>,
  \<^verbatim>\<open>0\<close>, \<^verbatim>\<open>""\<close>), and otherwise

  \<^item> \<open>Array xs\<close>: a value that holds the elements \<open>xs\<close> of the declared type and that
    the branch can measure, join, slice and iterate: an array, also the empty one. In
    \<^verbatim>\<open>urlsToRead\<close> a non-empty string is such a value too: \<^verbatim>\<open>length\<close>,
    \<^verbatim>\<open>slice(0, 3)\<close> and \<^verbatim>\<open>for ... of\<close> read \<^verbatim>\<open>"ab"\<close> as they read \<^verbatim>\<open>["a", "b"]\<close>.

  \<^item> \<open>NotArray l\<close>: a truthy value on which the branch throws a \<^verbatim>\<open>TypeError\<close>:
    \<^verbatim>\<open>true\<close>, a number or an object, which have no \<^verbatim>\<open>join\<close> and no \<^verbatim>\<open>slice\<close> and
    are not iterable, and in \<^verbatim>\<open>searchQueries\<close> a non-empty string, which has no
    \<^verbatim>\<open>join\<close>. \<open>l\<close> is what a template literal prints for its \<^verbatim>\<open>length\<close> property
    (\<^verbatim>\<open>undefined\<close> when it has none).

  The state of the run keeps strings and gap questions only, so an iterable whose elements
  do not have the declared type is not covered: an array of numbers, a string in
  \<^verbatim>\<open>gapQuestions\<close>, or \<^verbatim>\<open>null\<close> among the gaps, where \<^verbatim>\<open>gap.question\<close> throws.
  \<^verbatim>\<open>finalAnswer\<close> is never read.
\<close>

datatype 'a payload = Array "'a list" | NotArray string

record AgentAction =
  action :: string
  reasoning :: string
  searchQueries_a :: "string payload option"
  urlsToRead :: "string payload option"
  gapQuestions :: "GapQuestion payload option"
  finalAnswer :: "string option"

text \<open>
  What \<^verbatim>\<open>JSON.parse\<close> returns for a decision: \<^verbatim>\<open>null\<close>, whose properties cannot be
  read, or a value whose properties can. (A number, a boolean, a string or an array has
  none of the six properties, like the empty object.)
\<close>

datatype parsed = Null | Object AgentAction

subsection \<open>Configuration\<close>

definition MAX_STEPS :: nat where "MAX_STEPS = 25"
definition MAX_FAILED_ATTEMPTS :: nat where "MAX_FAILED_ATTEMPTS = 3"
definition MAX_URLS_PER_STEP :: nat where "MAX_URLS_PER_STEP = 3"
definition MAX_SEARCH_RESULTS :: nat where "MAX_SEARCH_RESULTS = 5"

subsection \<open>Helper functions\<close>

text \<open>
  \<^verbatim>\<open>String.prototype.substring(start, end)\<close>: both indices are clamped to
  \<open>[0, length]\<close> and swapped when \<open>start > end\<close>.
\<close>

definition substring :: "string \<Rightarrow> int \<Rightarrow> int \<Rightarrow> string" where
  "substring s start end' =
     (let n = int (length s);
          a = min (max start 0) n;
          b = min (max end' 0) n;
          lo = min a b;
          hi = max a b
      in take (nat (hi - lo)) (drop (nat lo) s))"

definition truncateToTokens :: "string \<Rightarrow> int \<Rightarrow> string" where
  "truncateToTokens text' maxTokens =
     (let maxChars = maxTokens * 4
      in if int (length text') \<le> maxChars then text'
         else substring text' 0 maxChars @ ''...'')"

text \<open>\<^verbatim>\<open>Array.prototype.join\<close> on an array of strings.\<close>

fun join :: "string \<Rightarrow> string list \<Rightarrow> string" where
  "join sep [] = ''''"
| "join sep [x] = x"
| "join sep (x # y # ys) = x @ sep @ join sep (y # ys)"

text \<open>A non-negative integer inside a template literal: its decimal digits.\<close>

fun showNat :: "nat \<Rightarrow> string" where
  "showNat n =
     (if n < 10 then [''0123456789'' ! n]
      else showNat (n div 10) @ [''0123456789'' ! (n mod 10)])"

declare showNat.simps [simp del]

subsection \<open>Stream events\<close>

datatype EventType =
  Thinking | Searching | Reading | Reflecting | Knowledge | Gap | Progress | Answer | Error

record Stats =
  totalSteps_s :: nat
  knowledgeItems :: nat
  urlsVisited :: nat
  searchesPerformed :: nat
  gapsInvestigated :: nat

text \<open>The shapes of \<^verbatim>\<open>StreamEvent.data\<close> that the loop sends.\<close>

datatype EventData =
  ProgressData nat nat nat \<comment> \<open>\<^verbatim>\<open>{ knowledgeCount, gapsCount, urlsVisited }\<close>\<close>
| ActionData string \<comment> \<open>\<^verbatim>\<open>{ action }\<close>\<close>
| ResultsData nat "string list" \<comment> \<open>\<^verbatim>\<open>{ resultCount, urls }\<close>\<close>
| ContentData string nat \<comment> \<open>\<^verbatim>\<open>{ url, contentLength }\<close>\<close>
| GapData GapQuestion
| ReportData string Stats \<comment> \<open>\<^verbatim>\<open>{ report, stats }\<close>\<close>

record StreamEvent =
  type :: EventType
  message :: string
  data :: "EventData option"
  step_e :: "nat option"
  totalSteps :: "nat option"

subsection \<open>The outside world\<close>

text \<open>
  A thrown value is an \<^verbatim>\<open>Error\<close> with its message (a \<^verbatim>\<open>TypeError\<close> is one), or
  something else. What \<^verbatim>\<open>fetch\<close> gives back is a rejection (also a body that does not
  have the expected shape), a status that is not ok, or the decoded body.
\<close>

datatype thrown = ErrorObject string | NonError

datatype 'a response = Rejected thrown | NotOk nat | Ok 'a

record ExtractResult =
  raw_content :: "string option"
  content_x :: "string option"

text \<open>
  The prompt sent to the model is a text built from these arguments by
  \<^verbatim>\<open>buildAgentPrompt\<close> and by the template of \<^verbatim>\<open>synthesizeReport\<close>; the text
  itself is not modelled.
\<close>

datatype prompt =
  AgentPrompt AgentState "string list"
| ReportPrompt string "KnowledgeItem list"

text \<open>
  The collaborators are parameters of the model. Each answer may depend on the moment of
  the call, which is the number of calls the run has made before it. \<open>JSON_parse\<close> is
  \<^verbatim>\<open>JSON.parse\<close> followed by the unchecked cast to \<^verbatim>\<open>AgentAction\<close>; \<open>None\<close>
  is the \<^verbatim>\<open>SyntaxError\<close>. \<open>typeError\<close> is the message the JavaScript engine gives the
  \<^verbatim>\<open>TypeError\<close> it raises when the named expression is read, called or iterated.
\<close>

record env =
  gateway :: "nat \<Rightarrow> prompt \<Rightarrow> bool \<Rightarrow> string response"
  JSON_parse :: "string \<Rightarrow> parsed option"
  typeError :: "string \<Rightarrow> string"
  searchApi :: "nat \<Rightarrow> string \<Rightarrow> SearchResult list option response"
  extractApi :: "nat \<Rightarrow> string \<Rightarrow> ExtractResult list option response"

text \<open>The calls of the loop to its four collaborators, in the order they are made.\<close>

datatype call = PolicyCall | SearchCall string | ExtractCall string | SynthesisCall

text \<open>
  What one run owns: the agent state, the URLs collected from searches, the events sent so
  far and the calls made so far.
\<close>

record run =
  state :: AgentState
  availableUrls :: "string list"
  events :: "StreamEvent list"
  calls :: "call list"

definition sendEvent :: "StreamEvent \<Rightarrow> run \<Rightarrow> run" where
  "sendEvent event w = w\<lparr>events := events w @ [event]\<rparr>"

definition logCall :: "call \<Rightarrow> run \<Rightarrow> run" where
  "logCall c w = w\<lparr>calls := calls w @ [c]\<rparr>"

subsection \<open>Adapters\<close>

definition tavilySearch :: "SearchResult list option response \<Rightarrow> SearchResult list" where
  "tavilySearch resp =
     (case resp of
        Rejected e \<Rightarrow> []
      | NotOk status \<Rightarrow> []
      | Ok results \<Rightarrow>
          (case results of
             None \<Rightarrow> []
           | Some rs \<Rightarrow>
               map (\<lambda>r. \<lparr>title = title r, url = url r,
                          content = truncateToTokens (content r) 500\<rparr>) rs))"

text \<open>\<^verbatim>\<open>a || b\<close> on strings that may be undefined: the empty string is falsy.\<close>

definition or_else :: "string option \<Rightarrow> string option \<Rightarrow> string option" where
  "or_else a b = (case a of None \<Rightarrow> b | Some s \<Rightarrow> if s = [] then b else a)"

definition readUrl :: "ExtractResult list option response \<Rightarrow> string option" where
  "readUrl resp =
     (case resp of
        Rejected e \<Rightarrow> None
      | NotOk status \<Rightarrow> None
      | Ok results \<Rightarrow>
          (case results of
             Some (r # rs) \<Rightarrow>
               Some (truncateToTokens
                 (the (or_else (or_else (raw_content r) (content_x r)) (Some ''''))) 2000)
           | _ \<Rightarrow> None))"

definition callLLM :: "string response \<Rightarrow> thrown + string" where
  "callLLM resp =
     (case resp of
        Rejected e \<Rightarrow> Inl e
      | NotOk status \<Rightarrow> Inl (ErrorObject (''LLM API failed: '' @ showNat status))
      | Ok content' \<Rightarrow> Inr content')"

definition getAgentAction ::
  "env \<Rightarrow> nat \<Rightarrow> AgentState \<Rightarrow> string list \<Rightarrow> thrown + parsed" where
  "getAgentAction env t st urls =
     (case callLLM (gateway env t (AgentPrompt st urls) True) of
        Inl e \<Rightarrow> Inl e
      | Inr response \<Rightarrow>
          (case JSON_parse env response of
             Some a \<Rightarrow> Inr a
           | None \<Rightarrow>
               Inr (Object
                 \<lparr>action = ''search'',
                  reasoning = ''Failed to parse previous response, trying a new search'',
                  searchQueries_a = Some (Array [currentQuestion st]),
                  urlsToRead = None, gapQuestions = None, finalAnswer = None\<rparr>)))"

definition synthesizeReport ::
  "env \<Rightarrow> nat \<Rightarrow> string \<Rightarrow> KnowledgeItem list \<Rightarrow> thrown + string" where
  "synthesizeReport env t topic ks = callLLM (gateway env t (ReportPrompt topic ks) False)"

section \<open>The agent loop\<close>

text \<open>
  How a piece of the loop body ends: it goes on (falls through, or \<^verbatim>\<open>continue\<close>),
  it returns from \<^verbatim>\<open>start\<close>, or it throws. The pause of 500 ms at the end of an
  iteration is not modelled, nor is a stream that the client has closed: every event sent
  is an event enqueued.
\<close>

datatype ctl = Next | Return | Throw thrown

definition event :: "EventType \<Rightarrow> string \<Rightarrow> nat \<Rightarrow> StreamEvent" where
  "event ty msg st =
     \<lparr>type = ty, message = msg, data = None, step_e = Some st, totalSteps = None\<rparr>"

definition initialState :: "string \<Rightarrow> AgentState" where
  "initialState topic =
     \<lparr>originalQuestion = topic, currentQuestion = topic, gaps = [], knowledge = [],
      visitedUrls = [], searchQueries = [], step = 0, totalTokensUsed = 0,
      failedAttempts = 0\<rparr>"

definition initialRun :: "string \<Rightarrow> run" where
  "initialRun topic =
     \<lparr>state = initialState topic, availableUrls = [], events = [], calls = []\<rparr>"

subsection \<open>Start of an iteration\<close>

definition progressEvent :: "AgentState \<Rightarrow> StreamEvent" where
  "progressEvent st =
     \<lparr>type = Progress,
      message = ''Research step '' @ showNat (step st) @ ''/'' @ showNat MAX_STEPS,
      data = Some (ProgressData (length (knowledge st)) (length (gaps st))
                     (Set_size (visitedUrls st))),
      step_e = Some (step st), totalSteps = Some MAX_STEPS\<rparr>"

text \<open>\<^verbatim>\<open>if (state.gaps.length > 0 && state.step > 2)\<close>: the front gap becomes the question.\<close>

definition dequeueGap :: "run \<Rightarrow> run" where
  \<open>dequeueGap w =
     (if length (gaps (state w)) > 0 \<and> step (state w) > 2 then
        let nextGap = hd (gaps (state w));
            w1 = w\<lparr>state := (state w)\<lparr>gaps := tl (gaps (state w)),
                                       currentQuestion := question nextGap\<rparr>\<rparr>
        in sendEvent
             (event Thinking
                (''Investigating sub-question: "'' @ question nextGap @ ''"'')
                (step (state w1))) w1
      else w)\<close>

subsection \<open>The search branch\<close>

fun addUrls :: "SearchResult list \<Rightarrow> string list \<Rightarrow> string list" where
  "addUrls [] avail = avail"
| "addUrls (r # rs) avail =
     addUrls rs (if url r \<in> set avail then avail else avail @ [url r])"

definition searchOne :: "env \<Rightarrow> string \<Rightarrow> run \<Rightarrow> run" where
  \<open>searchOne env query w =
     (let w1 = w\<lparr>state := (state w)\<lparr>searchQueries :=
                    Set_add (searchQueries (state w)) query\<rparr>\<rparr>;
          results = tavilySearch (searchApi env (length (calls w1)) query);
          w2 = logCall (SearchCall query) w1
      in if length results > 0 then
           let w3 = w2\<lparr>availableUrls := addUrls results (availableUrls w2)\<rparr>;
               snippetContent =
                 join ''\<newline>\<newline>'' (map (\<lambda>r. title r @ '': '' @ content r) results);
               w4 = w3\<lparr>state := (state w3)\<lparr>knowledge := knowledge (state w3) @
                      [\<lparr>question_k = query, answer = snippetContent,
                        sources = map url results, type_k = search\<rparr>]\<rparr>\<rparr>
           in sendEvent
                ((event Knowledge
                    (''Found '' @ showNat (length results) @ '' results for "'' @ query @ ''"'')
                    (step (state w4)))
                 \<lparr>data := Some (ResultsData (length results) (map url results))\<rparr>) w4
         else w2)\<close>

fun searchLoop :: "env \<Rightarrow> string list \<Rightarrow> run \<Rightarrow> run" where
  "searchLoop env [] w = w"
| "searchLoop env (query # rest) w =
     (if Set_has (searchQueries (state w)) query then searchLoop env rest w
      else searchLoop env rest (searchOne env query w))"

subsection \<open>The read branch\<close>

text \<open>\<^verbatim>\<open>if (content)\<close>: neither \<^verbatim>\<open>null\<close> nor the empty string.\<close>

definition readOne :: "env \<Rightarrow> string \<Rightarrow> run \<Rightarrow> run" where
  "readOne env u w =
     (let w1 = w\<lparr>state := (state w)\<lparr>visitedUrls := Set_add (visitedUrls (state w)) u\<rparr>\<rparr>;
          w2 = sendEvent (event Reading (''Reading: '' @ u) (step (state w1))) w1;
          content' = readUrl (extractApi env (length (calls w2)) u);
          w3 = logCall (ExtractCall u) w2
      in case content' of
           None \<Rightarrow> w3
         | Some c \<Rightarrow>
             if c = [] then w3
             else
               let w4 = w3\<lparr>state := (state w3)\<lparr>knowledge := knowledge (state w3) @
                          [\<lparr>question_k = ''Content from '' @ u, answer = c,
                            sources = [u], type_k = url_type\<rparr>]\<rparr>\<rparr>
               in sendEvent
                    ((event Knowledge (''Extracted content from '' @ u) (step (state w4)))
                     \<lparr>data := Some (ContentData u (length c))\<rparr>) w4)"

fun readLoop :: "env \<Rightarrow> string list \<Rightarrow> run \<Rightarrow> run" where
  "readLoop env [] w = w"
| "readLoop env (u # rest) w =
     (if Set_has (visitedUrls (state w)) u then readLoop env rest w
      else readLoop env rest (readOne env u w))"

subsection \<open>The reflect branch\<close>

fun gapLoop :: "GapQuestion list \<Rightarrow> run \<Rightarrow> run" where
  "gapLoop [] w = w"
| "gapLoop (gap # rest) w =
     gapLoop rest
       (sendEvent
          ((event Gap (''Gap identified: '' @ question gap) (step (state w)))
           \<lparr>data := Some (GapData gap)\<rparr>)
          (w\<lparr>state := (state w)\<lparr>gaps := gaps (state w) @ [gap]\<rparr>\<rparr>))"

definition readdOriginal :: "run \<Rightarrow> run" where
  "readdOriginal w =
     (if \<not> list_ex (\<lambda>g. question g = originalQuestion (state w)) (gaps (state w)) then
        w\<lparr>state := (state w)\<lparr>gaps := gaps (state w) @
             [\<lparr>question = originalQuestion (state w), priority = 1,
               reason = ''Main research question''\<rparr>]\<rparr>\<rparr>
      else w)"

subsection \<open>The answer branch and the dispatch\<close>

definition stats :: "AgentState \<Rightarrow> Stats" where
  "stats st =
     \<lparr>totalSteps_s = step st, knowledgeItems = length (knowledge st),
      urlsVisited = Set_size (visitedUrls st),
      searchesPerformed = Set_size (searchQueries st),
      gapsInvestigated = length (gaps st)\<rparr>"

definition answerBranch :: "env \<Rightarrow> string \<Rightarrow> run \<Rightarrow> ctl \<times> run" where
  "answerBranch env topic w =
     (if length (knowledge (state w)) < 3 then
        let w1 = w\<lparr>state := (state w)\<lparr>failedAttempts := failedAttempts (state w) + 1\<rparr>\<rparr>
        in (Next,
            sendEvent
              (event Thinking ''Not enough knowledge accumulated yet. Continuing research...''
                 (step (state w1))) w1)
      else
        let w1 = sendEvent
                   (event Thinking ''Synthesizing comprehensive research report...''
                      (step (state w))) w;
            result = synthesizeReport env (length (calls w1)) topic (knowledge (state w1));
            w2 = logCall SynthesisCall w1
        in case result of
             Inl e \<Rightarrow> (Throw e, w2)
           | Inr report \<Rightarrow>
               (Return,
                sendEvent
                  ((event Answer ''Research complete!'' (step (state w2)))
                   \<lparr>data := Some (ReportData report (stats (state w2)))\<rparr>) w2))"

text \<open>
  The three branches that read a payload, each on a payload that passed the test of the
  if-chain. On a value that is no array, \<^verbatim>\<open>action.searchQueries.join(' | ')\<close> throws
  while the message of the \<open>searching\<close> event is built, before anything is sent;
  \<^verbatim>\<open>action.urlsToRead.slice(0, MAX_URLS_PER_STEP)\<close> and the iteration of
  \<^verbatim>\<open>action.gapQuestions\<close> throw after the first event of the branch, whose message
  holds the \<^verbatim>\<open>length\<close> of the value.
\<close>

definition searchBranch :: "env \<Rightarrow> string payload \<Rightarrow> run \<Rightarrow> ctl \<times> run" where
  "searchBranch env p w =
     (case p of
        Array queries \<Rightarrow>
          (Next,
           searchLoop env queries
             (sendEvent
                (event Searching (''Searching: '' @ join '' | '' queries) (step (state w))) w))
      | NotArray l \<Rightarrow>
          (Throw (ErrorObject (typeError env ''action.searchQueries.join'')), w))"

definition readBranch :: "env \<Rightarrow> string payload \<Rightarrow> run \<Rightarrow> ctl \<times> run" where
  "readBranch env p w =
     (case p of
        Array urls \<Rightarrow>
          (Next,
           readLoop env (take MAX_URLS_PER_STEP urls)
             (sendEvent
                (event Reading
                   (''Reading '' @ showNat (length urls) @ '' sources deeply...'')
                   (step (state w))) w))
      | NotArray l \<Rightarrow>
          (Throw (ErrorObject (typeError env ''action.urlsToRead.slice'')),
           sendEvent
             (event Reading (''Reading '' @ l @ '' sources deeply...'') (step (state w))) w))"

definition reflectBranch :: "env \<Rightarrow> GapQuestion payload \<Rightarrow> run \<Rightarrow> ctl \<times> run" where
  "reflectBranch env p w =
     (case p of
        Array gs \<Rightarrow>
          (Next,
           readdOriginal
             (gapLoop gs
                (sendEvent
                   (event Reflecting
                      (''Identified '' @ showNat (length gs) @ '' knowledge gaps to investigate'')
                      (step (state w))) w)))
      | NotArray l \<Rightarrow>
          (Throw (ErrorObject (typeError env ''action.gapQuestions'')),
           sendEvent
             (event Reflecting (''Identified '' @ l @ '' knowledge gaps to investigate'')
                (step (state w))) w))"

text \<open>
  The if-chain on the decision. \<^verbatim>\<open>action.action === 'search' && action.searchQueries\<close>
  is the payload when the tag is right and the payload is truthy (an array is truthy, also
  the empty one).
\<close>

definition dispatch :: "env \<Rightarrow> string \<Rightarrow> AgentAction \<Rightarrow> run \<Rightarrow> ctl \<times> run" where
  "dispatch env topic a w =
     (case (if action a = ''search'' then searchQueries_a a else None) of
        Some queries \<Rightarrow> searchBranch env queries w
      | None \<Rightarrow>
     (case (if action a = ''read'' then urlsToRead a else None) of
        Some urls \<Rightarrow> readBranch env urls w
      | None \<Rightarrow>
     (case (if action a = ''reflect'' then gapQuestions a else None) of
        Some gs \<Rightarrow> reflectBranch env gs w
      | None \<Rightarrow>
     (if action a = ''answer'' then answerBranch env topic w
      else (Next, w)))))"

subsection \<open>One iteration, the loop and the run\<close>

text \<open>
  The head of an iteration: \<^verbatim>\<open>state.step++\<close>, the \<^verbatim>\<open>progress\<close> event and the
  question taken from the queue.
\<close>

definition beginStep :: "run \<Rightarrow> run" where
  "beginStep w =
     (let w1 = w\<lparr>state := (state w)\<lparr>step := step (state w) + 1\<rparr>\<rparr>;
          w2 = sendEvent (progressEvent (state w1)) w1
      in dequeueGap w2)"

text \<open>
  The decision asked for at a point of the run:
  \<^verbatim>\<open>getAgentAction(state, availableUrls.filter(u => !state.visitedUrls.has(u)), key)\<close>.
\<close>

definition decide :: "env \<Rightarrow> run \<Rightarrow> thrown + parsed" where
  "decide env w =
     getAgentAction env (length (calls w)) (state w)
       (filter (\<lambda>u. \<not> Set_has (visitedUrls (state w)) u) (availableUrls w))"

text \<open>
  The body of the loop. Reading \<^verbatim>\<open>action.reasoning\<close> of \<^verbatim>\<open>null\<close> throws while the
  \<open>thinking\<close> event of the decision is built, before it is sent.
\<close>

definition iteration :: "env \<Rightarrow> string \<Rightarrow> run \<Rightarrow> ctl \<times> run" where
  "iteration env topic w =
     (let w3 = beginStep w;
          result = decide env w3;
          w4 = logCall PolicyCall w3
      in case result of
           Inl e \<Rightarrow> (Throw e, w4)
         | Inr Null \<Rightarrow> (Throw (ErrorObject (typeError env ''action.reasoning'')), w4)
         | Inr (Object a) \<Rightarrow>
             dispatch env topic a
               (sendEvent
                  ((event Thinking (reasoning a) (step (state w4)))
                   \<lparr>data := Some (ActionData (action a))\<rparr>) w4))"

text \<open>Sending an event or logging a call touches nothing else.\<close>

lemma sendEvent_simps [simp]:
  "state (sendEvent e w) = state w"
  "availableUrls (sendEvent e w) = availableUrls w"
  "events (sendEvent e w) = events w @ [e]"
  "calls (sendEvent e w) = calls w"
  by (simp_all add: sendEvent_def)

lemma logCall_simps [simp]:
  "state (logCall c w) = state w"
  "availableUrls (logCall c w) = availableUrls w"
  "events (logCall c w) = events w"
  "calls (logCall c w) = calls w @ [c]"
  by (simp_all add: logCall_def)

lemma event_simps [simp]:
  "type (event ty msg st) = ty"
  "message (event ty msg st) = msg"
  "data (event ty msg st) = None"
  "step_e (event ty msg st) = Some st"
  "totalSteps (event ty msg st) = None"
  by (simp_all add: event_def)

text \<open>Only the head of an iteration changes the step counter.\<close>

lemma step_dequeueGap [simp]: "step (state (dequeueGap w)) = step (state w)"
  by (simp add: dequeueGap_def Let_def)

lemma step_searchOne [simp]: "step (state (searchOne env q w)) = step (state w)"
  by (simp add: searchOne_def Let_def)

lemma step_searchLoop [simp]: "step (state (searchLoop env qs w)) = step (state w)"
  by (induction qs arbitrary: w) simp_all

lemma step_readOne [simp]: "step (state (readOne env u w)) = step (state w)"
  by (simp add: readOne_def Let_def split: option.split)

lemma step_readLoop [simp]: "step (state (readLoop env us w)) = step (state w)"
  by (induction us arbitrary: w) simp_all

lemma step_gapLoop [simp]: "step (state (gapLoop gs w)) = step (state w)"
  by (induction gs arbitrary: w) simp_all

lemma step_readdOriginal [simp]: "step (state (readdOriginal w)) = step (state w)"
  by (simp add: readdOriginal_def)

lemma step_answerBranch [simp]:
  "step (state (snd (answerBranch env topic w))) = step (state w)"
  by (simp add: answerBranch_def Let_def split: sum.split)

lemma step_dispatch [simp]:
  "step (state (snd (dispatch env topic a w))) = step (state w)"
  by (simp add: dispatch_def searchBranch_def readBranch_def reflectBranch_def
      split: option.split payload.split)

lemma step_beginStep [simp]: "step (state (beginStep w)) = Suc (step (state w))"
  by (simp add: beginStep_def Let_def)

lemma step_iteration:
  "step (state (snd (iteration env topic w))) = Suc (step (state w))"
  by (simp add: iteration_def Let_def split: sum.split parsed.split)

text \<open>
  \<^verbatim>\<open>while (state.step < MAX_STEPS && state.failedAttempts < MAX_FAILED_ATTEMPTS)\<close>.
  The result \<open>Next\<close> is the loop left through its condition.
\<close>

function agentLoop :: "env \<Rightarrow> string \<Rightarrow> run \<Rightarrow> ctl \<times> run" where
  "agentLoop env topic w =
     (if step (state w) < MAX_STEPS \<and> failedAttempts (state w) < MAX_FAILED_ATTEMPTS then
        (case iteration env topic w of
           (Next, w') \<Rightarrow> agentLoop env topic w'
         | (Return, w') \<Rightarrow> (Return, w')
         | (Throw e, w') \<Rightarrow> (Throw e, w'))
      else (Next, w))"
  by pat_completeness auto
termination
proof (relation "measure (\<lambda>(env, topic, w). MAX_STEPS - step (state w))")
  show "wf (measure (\<lambda>(env, topic, w). MAX_STEPS - step (state w)))" by simp
next
  fix env topic w c w'
  assume "step (state w) < MAX_STEPS \<and> failedAttempts (state w) < MAX_FAILED_ATTEMPTS"
    and "(c, w') = iteration env topic w"
  then show "((env, topic, w'), env, topic, w)
               \<in> measure (\<lambda>(env, topic, w). MAX_STEPS - step (state w))"
    using step_iteration [of env topic w]
    by (auto simp del: One_nat_def) (metis snd_conv diff_less_mono2 lessI)
qed

declare agentLoop.simps [simp del]

text \<open>The \<^verbatim>\<open>catch\<close> of \<^verbatim>\<open>start\<close>: one \<^verbatim>\<open>error\<close> event, without a step.\<close>

definition catchHandler :: "thrown \<Rightarrow> run \<Rightarrow> run" where
  "catchHandler e w =
     sendEvent
       \<lparr>type = Error,
        message = ''Error: '' @ (case e of ErrorObject m \<Rightarrow> m | NonError \<Rightarrow> ''Unknown error''),
        data = None, step_e = None, totalSteps = None\<rparr> w"

text \<open>After the loop: \<^verbatim>\<open>// If we hit max steps without answering, synthesize what we have\<close>.\<close>

definition afterLoop :: "env \<Rightarrow> string \<Rightarrow> run \<Rightarrow> ctl \<times> run" where
  "afterLoop env topic w =
     (let w1 = sendEvent
                 (event Thinking ''Reached maximum research depth. Synthesizing findings...''
                    (step (state w))) w;
          result = synthesizeReport env (length (calls w1)) topic (knowledge (state w1));
          w2 = logCall SynthesisCall w1
      in case result of
           Inl e \<Rightarrow> (Throw e, w2)
         | Inr report \<Rightarrow>
             (Return,
              sendEvent
                ((event Answer ''Research complete (max depth reached)'' (step (state w2)))
                 \<lparr>data := Some (ReportData report (stats (state w2)))\<rparr>) w2))"

definition startEvent :: "string \<Rightarrow> StreamEvent" where
  \<open>startEvent topic =
     \<lparr>type = Thinking, message = ''Starting deep research on: "'' @ topic @ ''"'',
      data = None, step_e = Some 0, totalSteps = Some MAX_STEPS\<rparr>\<close>

text \<open>
  \<^verbatim>\<open>start(controller)\<close> for a topic: the first event, the loop, the synthesis after
  it, and the \<^verbatim>\<open>catch\<close> around all of it. The result is the run when the stream is
  closed.
\<close>

definition start :: "env \<Rightarrow> string \<Rightarrow> run" where
  "start env topic =
     (case (case agentLoop env topic (sendEvent (startEvent topic) (initialRun topic)) of
              (Next, w) \<Rightarrow> afterLoop env topic w
            | (Return, w) \<Rightarrow> (Return, w)
            | (Throw e, w) \<Rightarrow> (Throw e, w)) of
        (Throw e, w) \<Rightarrow> catchHandler e w
      | (c, w) \<Rightarrow> w)"

lemma agentLoop_stop:
  "\<not> (step (state w) < MAX_STEPS \<and> failedAttempts (state w) < MAX_FAILED_ATTEMPTS) \<Longrightarrow>
     agentLoop env topic w = (Next, w)"
  by (subst agentLoop.simps) auto

lemma agentLoop_go:
  "step (state w) < MAX_STEPS \<and> failedAttempts (state w) < MAX_FAILED_ATTEMPTS \<Longrightarrow>
     agentLoop env topic w =
       (case iteration env topic w of
          (Next, w') \<Rightarrow> agentLoop env topic w'
        | (Return, w') \<Rightarrow> (Return, w')
        | (Throw e, w') \<Rightarrow> (Throw e, w'))"
  by (subst agentLoop.simps) simp

text \<open>
  The loop cut off after \<open>n\<close> iterations, to look at the state at the end of a given
  step. With \<open>n\<close> large enough it is the loop itself.
\<close>

fun iterations :: "env \<Rightarrow> string \<Rightarrow> nat \<Rightarrow> run \<Rightarrow> ctl \<times> run" where
  "iterations env topic 0 w = (Next, w)"
| "iterations env topic (Suc n) w =
     (if step (state w) < MAX_STEPS \<and> failedAttempts (state w) < MAX_FAILED_ATTEMPTS then
        (case iteration env topic w of
           (Next, w') \<Rightarrow> iterations env topic n w'
         | (Return, w') \<Rightarrow> (Return, w')
         | (Throw e, w') \<Rightarrow> (Throw e, w'))
      else (Next, w))"

lemma iterations_agentLoop:
  "MAX_STEPS - step (state w) \<le> n \<Longrightarrow> iterations env topic n w = agentLoop env topic w"
proof (induction n arbitrary: w)
  case 0
  then show ?case by (simp add: agentLoop_stop)
next
  case (Suc n)
  show ?case
  proof (cases "step (state w) < MAX_STEPS \<and> failedAttempts (state w) < MAX_FAILED_ATTEMPTS")
    case False
    then show ?thesis by (auto simp: agentLoop_stop)
  next
    case True
    obtain c w1 where it: "iteration env topic w = (c, w1)"
      by (cases "iteration env topic w")
    have "step (state w1) = Suc (step (state w))"
      using step_iteration [of env topic w] it by simp
    with Suc.prems have "MAX_STEPS - step (state w1) \<le> n" by simp
    then have "iterations env topic n w1 = agentLoop env topic w1" by (rule Suc.IH)
    with True it show ?thesis
      by (simp add: agentLoop_go split: ctl.split)
  qed
qed

section \<open>Example collaborators\<close>

text \<open>
  Replies of the model as it would send them, with what \<^verbatim>\<open>JSON.parse\<close> makes of each,
  and providers that answer every query and every URL, or none. They serve the concrete
  runs below.
\<close>

definition reflectA :: string where
  \<open>reflectA = ''{"action":"reflect","reasoning":"split","gapQuestions":[{"question":"A","priority":3,"reason":"a"}]}''\<close>

definition reflectB :: string where
  \<open>reflectB = ''{"action":"reflect","reasoning":"split","gapQuestions":[{"question":"B","priority":1,"reason":"b"}]}''\<close>

definition searchX :: string where
  \<open>searchX = ''{"action":"search","reasoning":"look","searchQueries":["X"]}''\<close>

definition readFive :: string where
  \<open>readFive = ''{"action":"read","reasoning":"open","urlsToRead":["https://e.org/1","https://e.org/2","https://e.org/1","https://e.org/3","https://e.org/4"]}''\<close>

definition answerNow :: string where
  \<open>answerNow = ''{"action":"answer","reasoning":"done","finalAnswer":"X is X"}''\<close>

definition danceReply :: string where
  \<open>danceReply = ''{"action":"dance","reasoning":"why not"}''\<close>

definition nullReply :: string where
  "nullReply = ''null''"

definition searchText :: string where
  \<open>searchText = ''{"action":"search","reasoning":"look","searchQueries":"X"}''\<close>

definition readNumber :: string where
  \<open>readNumber = ''{"action":"read","reasoning":"open","urlsToRead":7}''\<close>

definition reflectObject :: string where
  \<open>reflectObject = ''{"action":"reflect","reasoning":"split","gapQuestions":{"question":"A"}}''\<close>

definition gapA :: GapQuestion where
  "gapA = \<lparr>question = ''A'', priority = 3, reason = ''a''\<rparr>"

definition gapB :: GapQuestion where
  "gapB = \<lparr>question = ''B'', priority = 1, reason = ''b''\<rparr>"

definition noAction :: AgentAction where
  "noAction = \<lparr>action = '''', reasoning = '''', searchQueries_a = None, urlsToRead = None,
     gapQuestions = None, finalAnswer = None\<rparr>"

definition reflectAction :: "GapQuestion list \<Rightarrow> AgentAction" where
  "reflectAction gs =
     noAction\<lparr>action := ''reflect'', reasoning := ''split'', gapQuestions := Some (Array gs)\<rparr>"

definition searchXAction :: AgentAction where
  "searchXAction =
     noAction\<lparr>action := ''search'', reasoning := ''look'',
       searchQueries_a := Some (Array [''X''])\<rparr>"

definition readFiveAction :: AgentAction where
  "readFiveAction = noAction\<lparr>action := ''read'', reasoning := ''open'',
     urlsToRead := Some (Array [''https://e.org/1'', ''https://e.org/2'', ''https://e.org/1'',
       ''https://e.org/3'', ''https://e.org/4''])\<rparr>"

definition answerAction :: AgentAction where
  "answerAction =
     noAction\<lparr>action := ''answer'', reasoning := ''done'', finalAnswer := Some ''X is X''\<rparr>"

definition danceAction :: AgentAction where
  "danceAction = noAction\<lparr>action := ''dance'', reasoning := ''why not''\<rparr>"

text \<open>
  Decisions that do not have the declared shape: the query is a string, the URLs are a
  number, the gaps are an object.
\<close>

definition searchTextAction :: AgentAction where
  "searchTextAction =
     noAction\<lparr>action := ''search'', reasoning := ''look'',
       searchQueries_a := Some (NotArray ''1'')\<rparr>"

definition readNumberAction :: AgentAction where
  "readNumberAction =
     noAction\<lparr>action := ''read'', reasoning := ''open'',
       urlsToRead := Some (NotArray ''undefined'')\<rparr>"

definition reflectObjectAction :: AgentAction where
  "reflectObjectAction =
     noAction\<lparr>action := ''reflect'', reasoning := ''split'',
       gapQuestions := Some (NotArray ''undefined'')\<rparr>"

definition parseExamples :: "string \<Rightarrow> parsed option" where
  "parseExamples = map_of
     [(reflectA, Object (reflectAction [gapA])), (reflectB, Object (reflectAction [gapB])),
      (searchX, Object searchXAction), (readFive, Object readFiveAction),
      (answerNow, Object answerAction), (danceReply, Object danceAction),
      (nullReply, Null), (searchText, Object searchTextAction),
      (readNumber, Object readNumberAction), (reflectObject, Object reflectObjectAction)]"

text \<open>The messages V8, the engine of Deno, gives the type errors of the loop.\<close>

definition v8TypeError :: "string \<Rightarrow> string" where
  "v8TypeError expr =
     (if expr = ''action.reasoning'' then
        ''Cannot read properties of null (reading '' @ [CHR 0x27] @ ''reasoning''
          @ [CHR 0x27] @ '')''
      else if expr = ''action.gapQuestions'' then expr @ '' is not iterable''
      else expr @ '' is not a function'')"

text \<open>The policy answers \<open>policy n\<close> at step \<open>n\<close>; the report is always written.\<close>

definition exampleEnv :: "(nat \<Rightarrow> string response) \<Rightarrow> env" where
  "exampleEnv policy =
     \<lparr>gateway = (\<lambda>t p jsonMode. case p of
                   AgentPrompt st urls \<Rightarrow> policy (step st)
                 | ReportPrompt topic ks \<Rightarrow> Ok ''# Report''),
      JSON_parse = parseExamples,
      typeError = v8TypeError,
      searchApi = (\<lambda>t q. Ok (Some [\<lparr>title = ''T'', url = ''https://e.org/'' @ q,
                                      content = ''c''\<rparr>])),
      extractApi = (\<lambda>t u. Ok (Some [\<lparr>raw_content = Some ''page'', content_x = None\<rparr>]))\<rparr>"

definition offlineEnv :: "(nat \<Rightarrow> string response) \<Rightarrow> env" where
  "offlineEnv policy =
     (exampleEnv policy)\<lparr>searchApi := (\<lambda>t q. NotOk 503), extractApi := (\<lambda>t u. NotOk 503)\<rparr>"


definition driftPolicy :: "nat \<Rightarrow> string response" where
  "driftPolicy n = Ok (if n = 1 then reflectA else if n = 3 then reflectB else searchX)"

definition thenAnswer :: "string \<Rightarrow> nat \<Rightarrow> string response" where
  "thenAnswer r n = Ok (if n \<le> 2 then r else answerNow)"

definition exampleRun :: run where
  "exampleRun = sendEvent (startEvent ''X'') (initialRun ''X'')"

lemmas example_defs =
  exampleEnv_def offlineEnv_def parseExamples_def reflectA_def reflectB_def searchX_def
  readFive_def answerNow_def danceReply_def nullReply_def searchText_def readNumber_def
  reflectObject_def gapA_def gapB_def noAction_def reflectAction_def
  searchXAction_def readFiveAction_def answerAction_def danceAction_def searchTextAction_def
  readNumberAction_def reflectObjectAction_def thenAnswer_def
  exampleRun_def initialRun_def initialState_def

section \<open>Truncation\<close>

lemma substring_from_0:
  "0 \<le> e \<Longrightarrow> substring s 0 e = take (nat e) s"
  by (auto simp: substring_def Let_def min_def max_def)

lemma truncateToTokens_long:
  "0 \<le> n \<Longrightarrow> 4 * n < int (length s) \<Longrightarrow>
     truncateToTokens s n = take (nat (4 * n)) s @ ''...''"
  by (simp add: truncateToTokens_def Let_def substring_from_0 mult.commute)

text \<open>
  C10. For every string \<open>s\<close> and every non-negative \<open>n\<close>, the result of
  \<open>truncateToTokens s n\<close> has at most \<open>4 * n + 3\<close> code units, is \<open>s\<close> itself when \<open>s\<close>
  has at most \<open>4 * n\<close> code units, and truncating it again with the same \<open>n\<close> changes
  nothing.
\<close>

theorem truncateToTokens_bound_idempotent:
  "0 \<le> n \<Longrightarrow>
     int (length (truncateToTokens s n)) \<le> 4 * n + 3
     \<and> (int (length s) \<le> 4 * n \<longrightarrow> truncateToTokens s n = s)
     \<and> truncateToTokens (truncateToTokens s n) n = truncateToTokens s n"
proof -
  assume n: "0 \<le> n"
  show ?thesis
  proof (cases "int (length s) \<le> 4 * n")
    case True
    then have "truncateToTokens s n = s"
      by (simp add: truncateToTokens_def Let_def mult.commute)
    with True show ?thesis by simp
  next
    case False
    then have long: "4 * n < int (length s)" by simp
    let ?t = "take (nat (4 * n)) s"
    have t: "truncateToTokens s n = ?t @ ''...''"
      using n long by (rule truncateToTokens_long)
    have len: "length ?t = nat (4 * n)"
      using n long by simp
    have "4 * n < int (length (?t @ ''...''))"
      using n len by simp
    then have "truncateToTokens (?t @ ''...'') n = take (nat (4 * n)) (?t @ ''...'') @ ''...''"
      using n by (rule truncateToTokens_long [rotated])
    also have "take (nat (4 * n)) (?t @ ''...'') = ?t"
      using len by simp
    finally have idem: "truncateToTokens (?t @ ''...'') n = ?t @ ''...''" .
    have "int (length (?t @ ''...'')) \<le> 4 * n + 3"
      using n len by simp
    with t idem False show ?thesis by simp
  qed
qed

theorem truncateToTokens_bound_idempotent_witness:
  "(0::int) \<le> 1
   \<and> truncateToTokens ''deep research'' 1 = ''deep...''
   \<and> int (length (truncateToTokens ''deep research'' 1)) \<le> 4 * 1 + 3
   \<and> int (length ''deep'') \<le> 4 * 1 \<and> truncateToTokens ''deep'' 1 = ''deep''
   \<and> truncateToTokens (truncateToTokens ''deep research'' 1) 1 = ''deep...''"
  using truncateToTokens_bound_idempotent [of 1 "''deep research''"]
        truncateToTokens_bound_idempotent [of 1 "''deep''"]
  by (simp add: truncateToTokens_def substring_def Let_def)

section \<open>The policy client\<close>

text \<open>
  The decision \<^verbatim>\<open>getAgentAction\<close> substitutes in its \<^verbatim>\<open>catch\<close>: a search for the
  current question.
\<close>

definition defaultDecision :: "AgentState \<Rightarrow> AgentAction" where
  "defaultDecision st =
     \<lparr>action = ''search'',
      reasoning = ''Failed to parse previous response, trying a new search'',
      searchQueries_a = Some (Array [currentQuestion st]),
      urlsToRead = None, gapQuestions = None, finalAnswer = None\<rparr>"

text \<open>
  The specification's reading of a reply. Its decision is a tagged variant over
  \<open>search: queries\<close>, \<open>read: urls\<close>, \<open>reflect: gapQuestions\<close> and
  \<open>answer: finalReportText\<close>, and \<open>parseDecision\<close> gives a decision or a parse error.
\<close>

definition isArray :: "'a payload option \<Rightarrow> bool" where
  "isArray p = (case p of Some (Array xs) \<Rightarrow> True | _ \<Rightarrow> False)"

definition expectedVariant :: "AgentAction \<Rightarrow> bool" where
  "expectedVariant a \<longleftrightarrow>
     (action a = ''search'' \<and> isArray (searchQueries_a a))
   \<or> (action a = ''read'' \<and> isArray (urlsToRead a))
   \<or> (action a = ''reflect'' \<and> isArray (gapQuestions a))
   \<or> (action a = ''answer'' \<and> finalAnswer a \<noteq> None)"

definition parseDecision :: "env \<Rightarrow> string \<Rightarrow> AgentAction option" where
  "parseDecision env raw =
     (case JSON_parse env raw of
        None \<Rightarrow> None
      | Some Null \<Rightarrow> None
      | Some (Object a) \<Rightarrow> if expectedVariant a then Some a else None)"

text \<open>
  C4, as the code has it. When the model has replied and \<^verbatim>\<open>JSON.parse\<close> rejects the
  reply, \<^verbatim>\<open>getAgentAction\<close> throws nothing and returns the default decision: a search
  whose only query is the current question. A reply that \<^verbatim>\<open>JSON.parse\<close> accepts is
  returned as parsed, whatever its shape.
\<close>

theorem getAgentAction_fallback:
  "callLLM (gateway env t (AgentPrompt st urls) True) = Inr response \<Longrightarrow>
     (JSON_parse env response = None \<longrightarrow>
        getAgentAction env t st urls = Inr (Object (defaultDecision st)))
   \<and> (\<forall>a. JSON_parse env response = Some a \<longrightarrow> getAgentAction env t st urls = Inr a)"
  by (simp add: getAgentAction_def defaultDecision_def)

theorem getAgentAction_fallback_witness:
  "callLLM (gateway (exampleEnv (\<lambda>n. Ok ''Let me search.'')) 0
            (AgentPrompt (initialState ''X'') []) True)
     = Inr ''Let me search.''
   \<and> JSON_parse (exampleEnv (\<lambda>n. Ok ''Let me search.'')) ''Let me search.'' = None
   \<and> getAgentAction (exampleEnv (\<lambda>n. Ok ''Let me search.'')) 0 (initialState ''X'') []
       = Inr (Object
               \<lparr>action = ''search'',
                reasoning = ''Failed to parse previous response, trying a new search'',
                searchQueries_a = Some (Array [''X'']),
                urlsToRead = None, gapQuestions = None, finalAnswer = None\<rparr>)"
  using getAgentAction_fallback
    [of "exampleEnv (\<lambda>n. Ok ''Let me search.'')" 0 "initialState ''X''" "[]"
        "''Let me search.''"]
  by (simp add: callLLM_def example_defs defaultDecision_def)

text \<open>
  C4 as stated fails: the reply \<^verbatim>\<open>{"action":"dance","reasoning":"why not"}\<close> is no
  decision of the expected variant, and \<^verbatim>\<open>getAgentAction\<close> returns it, not the
  default decision.
\<close>

theorem getAgentAction_unvalidated_counterexample:
  "callLLM (gateway (exampleEnv (\<lambda>n. Ok danceReply)) 0
            (AgentPrompt (initialState ''X'') []) True)
     = Inr danceReply
   \<and> parseDecision (exampleEnv (\<lambda>n. Ok danceReply)) danceReply = None
   \<and> getAgentAction (exampleEnv (\<lambda>n. Ok danceReply)) 0 (initialState ''X'') []
       = Inr (Object danceAction)
   \<and> danceAction \<noteq> defaultDecision (initialState ''X'')"
  by (simp add: callLLM_def getAgentAction_def parseDecision_def expectedVariant_def
      isArray_def example_defs defaultDecision_def)

section \<open>The dispatch on the decision\<close>

text \<open>
  C9. A decision whose tag is none of \<open>search\<close>, \<open>read\<close>, \<open>reflect\<close>, \<open>answer\<close>, or
  whose tag is \<open>search\<close>, \<open>read\<close> or \<open>reflect\<close> while its payload is absent, falls
  through the if-chain: the run is left as it was (no state change, no event, no call)
  and the loop goes on to its next iteration.
\<close>

theorem dispatch_noop:
  "action a \<notin> {''search'', ''read'', ''reflect'', ''answer''}
   \<or> (action a = ''search'' \<and> searchQueries_a a = None)
   \<or> (action a = ''read'' \<and> urlsToRead a = None)
   \<or> (action a = ''reflect'' \<and> gapQuestions a = None)
   \<Longrightarrow> dispatch env topic a w = (Next, w)"
  by (auto simp: dispatch_def)

theorem dispatch_noop_witness:
  "action danceAction \<notin> {''search'', ''read'', ''reflect'', ''answer''}
   \<and> dispatch (exampleEnv (\<lambda>n. Ok danceReply)) ''X'' danceAction exampleRun = (Next, exampleRun)
   \<and> action (noAction\<lparr>action := ''search''\<rparr>) = ''search''
   \<and> searchQueries_a (noAction\<lparr>action := ''search''\<rparr>) = None
   \<and> dispatch (exampleEnv (\<lambda>n. Ok danceReply)) ''X'' (noAction\<lparr>action := ''search''\<rparr>)
         exampleRun
       = (Next, exampleRun)"
proof -
  have h1: "action danceAction \<notin> {''search'', ''read'', ''reflect'', ''answer''}"
    by (simp add: danceAction_def noAction_def)
  have h2: "action (noAction\<lparr>action := ''search''\<rparr>) = ''search''
    \<and> searchQueries_a (noAction\<lparr>action := ''search''\<rparr>) = None"
    by (simp add: noAction_def)
  from h1 have c1:
    "dispatch (exampleEnv (\<lambda>n. Ok danceReply)) ''X'' danceAction exampleRun = (Next, exampleRun)"
    by (intro dispatch_noop) simp
  from h2 have c2:
    "dispatch (exampleEnv (\<lambda>n. Ok danceReply)) ''X'' (noAction\<lparr>action := ''search''\<rparr>)
       exampleRun = (Next, exampleRun)"
    by (intro dispatch_noop) simp
  from h1 h2 c1 c2 show ?thesis by simp
qed


subsection \<open>A premature answer\<close>

lemma dequeueGap_simps [simp]:
  "knowledge (state (dequeueGap w)) = knowledge (state w)"
  "calls (dequeueGap w) = calls w"
  "failedAttempts (state (dequeueGap w)) = failedAttempts (state w)"
  by (simp_all add: dequeueGap_def Let_def)


lemma beginStep_simps [simp]:
  "knowledge (state (beginStep w)) = knowledge (state w)"
  "calls (beginStep w) = calls w"
  "failedAttempts (state (beginStep w)) = failedAttempts (state w)"
  by (simp_all add: beginStep_def Let_def)




subsection \<open>Reflection\<close>

lemma gapLoop_simps [simp]:
  "gaps (state (gapLoop gs w)) = gaps (state w) @ gs"
  "originalQuestion (state (gapLoop gs w)) = originalQuestion (state w)"
  by (induction gs arbitrary: w) simp_all

text \<open>
  C5, as the code has it. A \<open>reflect\<close> decision appends its gap questions to the queue
  in the order they are listed, and then appends the original question, with priority 1
  and the reason \<open>Main research question\<close>, exactly when no gap in the queue asks it. On
  an empty queue, with gaps that do not ask the original question, the queue becomes the
  listed gaps followed by the original question.
\<close>

theorem reflect_ordering:
  assumes "action a = ''reflect''" and "gapQuestions a = Some (Array gs)"
  shows "\<exists>w'. dispatch env topic a w = (Next, w')
     \<and> gaps (state w') = gaps (state w) @ gs @
          (if \<exists>g\<in>set (gaps (state w) @ gs). question g = originalQuestion (state w) then []
           else [\<lparr>question = originalQuestion (state w), priority = 1,
                  reason = ''Main research question''\<rparr>])
     \<and> (gaps (state w) = [] \<and> (\<forall>g\<in>set gs. question g \<noteq> originalQuestion (state w))
          \<longrightarrow> gaps (state w') = gs @
                [\<lparr>question = originalQuestion (state w), priority = 1,
                  reason = ''Main research question''\<rparr>])"
  using assms by (auto simp: dispatch_def reflectBranch_def readdOriginal_def list_ex_iff)

theorem reflect_ordering_witness:
  "action (reflectAction [gapA, gapB]) = ''reflect''
   \<and> gapQuestions (reflectAction [gapA, gapB]) = Some (Array [gapA, gapB])
   \<and> gaps (state (snd (dispatch (exampleEnv (\<lambda>n. Ok reflectA)) ''X''
         (reflectAction [gapA, gapB]) exampleRun)))
       = [gapA, gapB, \<lparr>question = ''X'', priority = 1, reason = ''Main research question''\<rparr>]"
  using reflect_ordering [of "reflectAction [gapA, gapB]" "[gapA, gapB]"
      "exampleEnv (\<lambda>n. Ok reflectA)" "''X''" exampleRun]
  by (auto simp: reflectAction_def noAction_def exampleRun_def initialRun_def initialState_def
      gapA_def gapB_def)

text \<open>
  C5 as stated fails on the reason of the re-appended question, which the claim writes in
  lower case: the scenario's queue is not \<open>[A, B, original]\<close> with that reason.
\<close>

theorem reflect_reason_counterexample:
  "gaps (state (snd (dispatch (exampleEnv (\<lambda>n. Ok reflectA)) ''X''
         (reflectAction [gapA, gapB]) exampleRun)))
     \<noteq> [gapA, gapB, \<lparr>question = ''X'', priority = 1, reason = ''main research question''\<rparr>]"
  by (simp add: dispatch_def reflectBranch_def readdOriginal_def reflectAction_def noAction_def
      exampleRun_def initialRun_def initialState_def gapA_def gapB_def)


section \<open>Invariants of a run\<close>

text \<open>
  The queries given to the Search Provider and the URLs given to the Content Extractor,
  read off the log of calls, and the step numbers the events carry, in the order of
  emission.
\<close>

fun searchCalls :: "call list \<Rightarrow> string list" where
  "searchCalls [] = []"
| "searchCalls (SearchCall q # cs) = q # searchCalls cs"
| "searchCalls (c # cs) = searchCalls cs"

fun extractCalls :: "call list \<Rightarrow> string list" where
  "extractCalls [] = []"
| "extractCalls (ExtractCall u # cs) = u # extractCalls cs"
| "extractCalls (c # cs) = extractCalls cs"

fun eventSteps :: "StreamEvent list \<Rightarrow> nat list" where
  "eventSteps [] = []"
| "eventSteps (e # es) =
     (case step_e e of None \<Rightarrow> eventSteps es | Some s \<Rightarrow> s # eventSteps es)"

lemma searchCalls_append [simp]: "searchCalls (xs @ ys) = searchCalls xs @ searchCalls ys"
  by (induction xs rule: searchCalls.induct) simp_all

lemma extractCalls_append [simp]: "extractCalls (xs @ ys) = extractCalls xs @ extractCalls ys"
  by (induction xs rule: extractCalls.induct) simp_all

lemma eventSteps_append [simp]: "eventSteps (xs @ ys) = eventSteps xs @ eventSteps ys"
  by (induction xs) (simp_all split: option.split)

text \<open>
  The questions of the knowledge items that searches made, and the sources of the items
  that extractions made.
\<close>

definition searchAnswers :: "AgentState \<Rightarrow> string list" where
  "searchAnswers st = map question_k (filter (\<lambda>k. type_k k = search) (knowledge st))"

definition pagesRead :: "AgentState \<Rightarrow> string list" where
  "pagesRead st = concat (map sources (filter (\<lambda>k. type_k k = url_type) (knowledge st)))"

text \<open>
  The bookkeeping invariant: the queries searched are the elements of
  \<^verbatim>\<open>searchQueries\<close>, the URLs extracted are the elements of \<^verbatim>\<open>visitedUrls\<close>, each
  once, and every knowledge item comes from one of them.
\<close>

definition tracked :: "run \<Rightarrow> bool" where
  "tracked w \<longleftrightarrow>
     searchCalls (calls w) = searchQueries (state w) \<and> distinct (searchQueries (state w))
   \<and> extractCalls (calls w) = visitedUrls (state w) \<and> distinct (visitedUrls (state w))
   \<and> distinct (searchAnswers (state w))
   \<and> set (searchAnswers (state w)) \<subseteq> set (searchQueries (state w))
   \<and> distinct (pagesRead (state w))
   \<and> set (pagesRead (state w)) \<subseteq> set (visitedUrls (state w))"

text \<open>
  What a piece of the loop body may do when it neither ends the run nor counts a failed
  attempt: it keeps the step, the original question and the failure counter, sends events
  of the current step that are neither \<open>answer\<close> nor \<open>error\<close>, calls neither the
  policy nor the synthesizer, and keeps the bookkeeping invariant.
\<close>

definition effect :: "run \<Rightarrow> run \<Rightarrow> bool" where
  "effect w w' \<longleftrightarrow>
     step (state w') = step (state w)
   \<and> originalQuestion (state w') = originalQuestion (state w)
   \<and> failedAttempts (state w') = failedAttempts (state w)
   \<and> (\<exists>es. events w' = events w @ es
         \<and> (\<forall>e\<in>set es. step_e e = Some (step (state w)) \<and> type e \<noteq> Answer \<and> type e \<noteq> Error))
   \<and> (\<exists>cs. calls w' = calls w @ cs \<and> SynthesisCall \<notin> set cs \<and> PolicyCall \<notin> set cs)
   \<and> (tracked w \<longrightarrow> tracked w')"

lemma effect_refl [simp]: "effect w w"
  by (simp add: effect_def)

lemma effect_trans:
  assumes "effect w w'" and "effect w' w''"
  shows "effect w w''"
proof -
  from assms(1) obtain es cs where 1:
    "step (state w') = step (state w)"
    "originalQuestion (state w') = originalQuestion (state w)"
    "failedAttempts (state w') = failedAttempts (state w)"
    "events w' = events w @ es"
    "\<forall>e\<in>set es. step_e e = Some (step (state w)) \<and> type e \<noteq> Answer \<and> type e \<noteq> Error"
    "calls w' = calls w @ cs" "SynthesisCall \<notin> set cs" "PolicyCall \<notin> set cs"
    "tracked w \<longrightarrow> tracked w'"
    unfolding effect_def by blast
  from assms(2) obtain es' cs' where 2:
    "step (state w'') = step (state w')"
    "originalQuestion (state w'') = originalQuestion (state w')"
    "failedAttempts (state w'') = failedAttempts (state w')"
    "events w'' = events w' @ es'"
    "\<forall>e\<in>set es'. step_e e = Some (step (state w')) \<and> type e \<noteq> Answer \<and> type e \<noteq> Error"
    "calls w'' = calls w' @ cs'" "SynthesisCall \<notin> set cs'" "PolicyCall \<notin> set cs'"
    "tracked w' \<longrightarrow> tracked w''"
    unfolding effect_def by blast
  have ev: "\<exists>es''. events w'' = events w @ es''
      \<and> (\<forall>e\<in>set es''. step_e e = Some (step (state w)) \<and> type e \<noteq> Answer \<and> type e \<noteq> Error)"
    using 1(1,4,5) 2(4,5) by (intro exI [of _ "es @ es'"]) auto
  have ca: "\<exists>cs''. calls w'' = calls w @ cs''
      \<and> SynthesisCall \<notin> set cs'' \<and> PolicyCall \<notin> set cs''"
    using 1(6-8) 2(6-8) by (intro exI [of _ "cs @ cs'"]) simp
  show ?thesis
    unfolding effect_def using ev ca 1(1-3,9) 2(1-3,9) by simp
qed

lemma effect_dequeueGap: "effect w (dequeueGap w)"
  by (simp add: effect_def dequeueGap_def Let_def tracked_def searchAnswers_def pagesRead_def)

lemma effect_searchOne:
  "\<not> Set_has (searchQueries (state w)) q \<Longrightarrow> effect w (searchOne env q w)"
  by (auto simp: effect_def searchOne_def Let_def tracked_def searchAnswers_def pagesRead_def
      Set_has_def Set_add_def)

lemma effect_searchLoop: "effect w (searchLoop env qs w)"
proof (induction qs arbitrary: w)
  case Nil
  show ?case by simp
next
  case (Cons q qs)
  show ?case
  proof (cases "Set_has (searchQueries (state w)) q")
    case True
    then show ?thesis using Cons.IH [of w] by simp
  next
    case False
    then show ?thesis
      using effect_trans [OF effect_searchOne [OF False] Cons.IH] by simp
  qed
qed

lemma effect_readOne:
  "\<not> Set_has (visitedUrls (state w)) u \<Longrightarrow> effect w (readOne env u w)"
  by (auto simp: effect_def readOne_def Let_def tracked_def searchAnswers_def pagesRead_def
      Set_has_def Set_add_def split: option.split)

lemma effect_readLoop: "effect w (readLoop env us w)"
proof (induction us arbitrary: w)
  case Nil
  show ?case by simp
next
  case (Cons u us)
  show ?case
  proof (cases "Set_has (visitedUrls (state w)) u")
    case True
    then show ?thesis using Cons.IH [of w] by simp
  next
    case False
    then show ?thesis
      using effect_trans [OF effect_readOne [OF False] Cons.IH] by simp
  qed
qed

lemma effect_gapLoop: "effect w (gapLoop gs w)"
proof (induction gs arbitrary: w)
  case Nil
  show ?case by simp
next
  case (Cons g gs)
  let ?w1 = "sendEvent
          ((event Gap (''Gap identified: '' @ question g) (step (state w)))
           \<lparr>data := Some (GapData g)\<rparr>)
          (w\<lparr>state := (state w)\<lparr>gaps := gaps (state w) @ [g]\<rparr>\<rparr>)"
  have "effect w ?w1" by (simp add: effect_def tracked_def searchAnswers_def pagesRead_def)
  from effect_trans [OF this Cons.IH] show ?case by simp
qed

lemma effect_readdOriginal: "effect w (readdOriginal w)"
  by (simp add: effect_def readdOriginal_def tracked_def searchAnswers_def pagesRead_def)

lemma effect_sendEvent:
  "step_e e = Some (step (state w)) \<Longrightarrow> type e \<noteq> Answer \<Longrightarrow> type e \<noteq> Error \<Longrightarrow>
     effect w (sendEvent e w)"
  by (simp add: effect_def tracked_def searchAnswers_def pagesRead_def)

text \<open>
  The invariant of the loop: the steps of the events sent so far never decrease and do
  not exceed the step counter; no final event has been sent and no report asked for; the
  bookkeeping holds. \<open>counted\<close>: every iteration has asked the policy once.
\<close>

definition wellOrdered :: "run \<Rightarrow> bool" where
  "wellOrdered w \<longleftrightarrow>
     sorted (eventSteps (events w)) \<and> (\<forall>s\<in>set (eventSteps (events w)). s \<le> step (state w))"

definition unanswered :: "run \<Rightarrow> bool" where
  "unanswered w \<longleftrightarrow>
     (\<forall>e\<in>set (events w). type e \<noteq> Answer \<and> type e \<noteq> Error)
   \<and> SynthesisCall \<notin> set (calls w)"

definition counted :: "run \<Rightarrow> bool" where
  "counted w \<longleftrightarrow> count_list (calls w) PolicyCall = step (state w)"

definition inv :: "run \<Rightarrow> bool" where
  "inv w \<longleftrightarrow> wellOrdered w \<and> unanswered w \<and> tracked w"

lemma eventSteps_const:
  "\<forall>e\<in>set es. step_e e = Some n \<or> step_e e = None \<Longrightarrow>
     set (eventSteps es) \<subseteq> {n} \<and> sorted (eventSteps es)"
  by (induction es) auto

lemma wellOrdered_extend:
  assumes "wellOrdered w" and "events w' = events w @ es"
    and "\<forall>e\<in>set es. step_e e = Some n \<or> step_e e = None"
    and "step (state w) \<le> n" and "step (state w') = n"
  shows "wellOrdered w'"
proof -
  from eventSteps_const [OF assms(3)]
  have es: "set (eventSteps es) \<subseteq> {n}" "sorted (eventSteps es)" by simp_all
  have old: "sorted (eventSteps (events w))" "\<forall>s\<in>set (eventSteps (events w)). s \<le> n"
    using assms(1,4) by (auto simp: wellOrdered_def)
  have "\<forall>x\<in>set (eventSteps (events w)). \<forall>y\<in>set (eventSteps es). x \<le> y"
    using old(2) es(1) by auto
  with old(1) es(2) have "sorted (eventSteps (events w'))"
    by (simp add: assms(2) sorted_append)
  moreover have "\<forall>s\<in>set (eventSteps (events w')). s \<le> step (state w')"
    using old(2) es(1) by (auto simp: assms(2,5))
  ultimately show ?thesis by (simp add: wellOrdered_def)
qed

lemma inv_effect:
  assumes "inv w" and "effect w w'"
  shows "inv w'"
proof -
  from assms(2) obtain es cs where
    st: "step (state w') = step (state w)"
    and es: "events w' = events w @ es"
      "\<forall>e\<in>set es. step_e e = Some (step (state w)) \<and> type e \<noteq> Answer \<and> type e \<noteq> Error"
    and cs: "calls w' = calls w @ cs" "SynthesisCall \<notin> set cs"
    and tr: "tracked w \<longrightarrow> tracked w'"
    unfolding effect_def by blast
  have "wellOrdered w'"
    using assms(1) es st by (intro wellOrdered_extend [of w w' es "step (state w)"]) (auto simp: inv_def)
  moreover have "unanswered w'"
    using assms(1) es cs by (auto simp: inv_def unanswered_def)
  moreover have "tracked w'"
    using assms(1) tr by (simp add: inv_def)
  ultimately show ?thesis by (simp add: inv_def)
qed

lemma count_effect:
  "effect w w' \<Longrightarrow> count_list (calls w') PolicyCall = count_list (calls w) PolicyCall"
  by (auto simp: effect_def)

text \<open>
  The run after the \<open>answer\<close> event, and the run at a throw, before the \<^verbatim>\<open>catch\<close>:
  the synthesizer was called at most once, as the last call; a throw comes from the
  synthesis, or from the policy call or the decision it returned, before any other call
  of the iteration.
\<close>

definition answered :: "run \<Rightarrow> bool" where
  "answered w \<longleftrightarrow>
     wellOrdered w \<and> tracked w
   \<and> events w \<noteq> [] \<and> type (last (events w)) = Answer
   \<and> (\<forall>e\<in>set (butlast (events w)). type e \<noteq> Answer \<and> type e \<noteq> Error)
   \<and> calls w \<noteq> [] \<and> last (calls w) = SynthesisCall
   \<and> SynthesisCall \<notin> set (butlast (calls w))"

definition failing :: "run \<Rightarrow> bool" where
  "failing w \<longleftrightarrow>
     wellOrdered w \<and> tracked w
   \<and> (\<forall>e\<in>set (events w). type e \<noteq> Answer \<and> type e \<noteq> Error)
   \<and> calls w \<noteq> [] \<and> SynthesisCall \<notin> set (butlast (calls w))
   \<and> (last (calls w) = SynthesisCall \<or> last (calls w) = PolicyCall)"

fun outcome :: "ctl \<Rightarrow> run \<Rightarrow> bool" where
  "outcome Next w = inv w"
| "outcome Return w = answered w"
| "outcome (Throw e) w = failing w"

lemma tracked_sendEvent [simp]: "tracked (sendEvent e w) = tracked w"
  by (simp add: tracked_def searchAnswers_def pagesRead_def)

lemma tracked_logCall [simp]:
  "tracked (logCall SynthesisCall w) = tracked w"
  "tracked (logCall PolicyCall w) = tracked w"
  by (simp_all add: tracked_def searchAnswers_def pagesRead_def)

lemma wellOrdered_logCall [simp]: "wellOrdered (logCall c w) = wellOrdered w"
  by (simp add: wellOrdered_def)

lemma wellOrdered_sendEvent:
  "wellOrdered w \<Longrightarrow> step_e e = Some (step (state w)) \<or> step_e e = None \<Longrightarrow>
     wellOrdered (sendEvent e w)"
  by (rule wellOrdered_extend [of w _ "[e]" "step (state w)"]) simp_all

lemma inv_failedAttempts [simp]:
  "inv (w\<lparr>state := (state w)\<lparr>failedAttempts := k\<rparr>\<rparr>) = inv w"
  by (simp add: inv_def wellOrdered_def unanswered_def tracked_def searchAnswers_def pagesRead_def)

lemma answerBranch_outcome:
  assumes "inv w" and "answerBranch env topic w = (c, w')"
  shows "outcome c w'"
proof (cases "length (knowledge (state w)) < 3")
  case True
  let ?w1 = "w\<lparr>state := (state w)\<lparr>failedAttempts := failedAttempts (state w) + 1\<rparr>\<rparr>"
  let ?e = "event Thinking ''Not enough knowledge accumulated yet. Continuing research...''
              (step (state ?w1))"
  have eq: "c = Next" "w' = sendEvent ?e ?w1"
    using assms(2) True by (simp_all add: answerBranch_def Let_def)
  have "inv ?w1" using assms(1) by simp
  moreover have "effect ?w1 (sendEvent ?e ?w1)"
    by (rule effect_sendEvent) simp_all
  ultimately have "inv (sendEvent ?e ?w1)" by (rule inv_effect)
  with eq show ?thesis by simp
next
  case False
  let ?e = "event Thinking ''Synthesizing comprehensive research report...'' (step (state w))"
  let ?w1 = "sendEvent ?e w"
  let ?w2 = "logCall SynthesisCall ?w1"
  have i1: "inv ?w1"
    using assms(1) by (rule inv_effect) (rule effect_sendEvent, simp_all)
  have wo: "wellOrdered ?w2" and tr: "tracked ?w2"
    using i1 by (simp_all add: inv_def)
  have un: "\<forall>e\<in>set (events ?w2). type e \<noteq> Answer \<and> type e \<noteq> Error"
    "SynthesisCall \<notin> set (calls ?w1)"
    using i1 by (simp_all add: inv_def unanswered_def)
  show ?thesis
  proof (cases "synthesizeReport env (length (calls ?w1)) topic (knowledge (state ?w1))")
    case (Inl e)
    then have eq: "c = Throw e" "w' = ?w2"
      using assms(2) False by (simp_all add: answerBranch_def Let_def)
    have "failing ?w2"
      using wo tr un by (simp add: failing_def)
    with eq show ?thesis by simp
  next
    case (Inr report)
    let ?a = "(event Answer ''Research complete!'' (step (state ?w2)))
                \<lparr>data := Some (ReportData report (stats (state ?w2)))\<rparr>"
    have eq: "c = Return" "w' = sendEvent ?a ?w2"
      using assms(2) False Inr by (simp_all add: answerBranch_def Let_def)
    have "wellOrdered (sendEvent ?a ?w2)"
      using wo by (rule wellOrdered_sendEvent) simp
    then have "answered (sendEvent ?a ?w2)"
      using tr un by (simp add: answered_def butlast_append)
    with eq show ?thesis by simp
  qed
qed


text \<open>What the dispatch does to a run that satisfies the invariant.\<close>

definition progress :: "run \<Rightarrow> ctl \<Rightarrow> run \<Rightarrow> bool" where
  "progress w c w' \<longleftrightarrow>
     outcome c w'
   \<and> failedAttempts (state w') \<le> Suc (failedAttempts (state w))
   \<and> count_list (calls w') PolicyCall = count_list (calls w) PolicyCall
   \<and> step (state w') = step (state w)"

lemma progress_effect: "inv w \<Longrightarrow> effect w w' \<Longrightarrow> progress w Next w'"
  using inv_effect [of w w'] count_effect [of w w'] by (simp add: progress_def effect_def)

lemma answerBranch_progress:
  assumes "inv w" and "answerBranch env topic w = (c, w')"
  shows "progress w c w'"
proof -
  have "outcome c w'" using assms by (rule answerBranch_outcome)
  moreover have "failedAttempts (state w') \<le> Suc (failedAttempts (state w))
     \<and> count_list (calls w') PolicyCall = count_list (calls w) PolicyCall
     \<and> step (state w') = step (state w)"
    using assms(2) by (auto simp: answerBranch_def Let_def split: if_splits sum.splits)
  ultimately show ?thesis by (simp add: progress_def)
qed

lemma inv_logCall_Policy [simp]: "inv (logCall PolicyCall w) = inv w"
  by (simp add: inv_def wellOrdered_def unanswered_def tracked_def searchAnswers_def pagesRead_def)

lemma inv_beginStep:
  assumes "inv w"
  shows "inv (beginStep w)"
proof -
  let ?w1 = "w\<lparr>state := (state w)\<lparr>step := step (state w) + 1\<rparr>\<rparr>"
  have "wellOrdered ?w1"
    using assms by (auto simp: inv_def wellOrdered_def)
  then have "inv ?w1"
    using assms by (simp add: inv_def unanswered_def tracked_def searchAnswers_def pagesRead_def)
  moreover have "effect ?w1 (sendEvent (progressEvent (state ?w1)) ?w1)"
    by (rule effect_sendEvent) (simp_all add: progressEvent_def)
  ultimately have "inv (sendEvent (progressEvent (state ?w1)) ?w1)"
    by (rule inv_effect)
  then have "inv (dequeueGap (sendEvent (progressEvent (state ?w1)) ?w1))"
    by (rule inv_effect) (rule effect_dequeueGap)
  then show ?thesis by (simp add: beginStep_def Let_def)
qed

text \<open>
  A branch that throws on its payload has made no call: the policy call is still the
  last one.
\<close>

lemma progress_throw:
  assumes "inv w" and "calls w \<noteq> []" and "last (calls w) = PolicyCall" and "effect w w'"
    and "calls w' = calls w"
  shows "progress w (Throw e) w'"
proof -
  have i: "inv w'" using assms(1,4) by (rule inv_effect)
  then have "failing w'"
    using assms(2,3,5) by (auto simp: failing_def inv_def unanswered_def dest: in_set_butlastD)
  then show ?thesis
    using assms(4) by (simp add: progress_def effect_def assms(5))
qed

lemma searchBranch_progress:
  assumes "inv w" and "calls w \<noteq> []" and "last (calls w) = PolicyCall"
    and "searchBranch env p w = (c, w')"
  shows "progress w c w'"
proof (cases p)
  case (Array qs)
  let ?w1 = "sendEvent (event Searching (''Searching: '' @ join '' | '' qs) (step (state w))) w"
  have eq: "c = Next" "w' = searchLoop env qs ?w1"
    using assms(4) Array by (simp_all add: searchBranch_def)
  have "effect w ?w1" by (rule effect_sendEvent) simp_all
  then have "effect w w'"
    unfolding eq by (rule effect_trans) (rule effect_searchLoop)
  with assms(1) eq show ?thesis by (simp add: progress_effect)
next
  case (NotArray l)
  then have eq: "c = Throw (ErrorObject (typeError env ''action.searchQueries.join''))" "w' = w"
    using assms(4) by (simp_all add: searchBranch_def)
  show ?thesis
    unfolding eq using assms(1-3) by (rule progress_throw) simp_all
qed

lemma readBranch_progress:
  assumes "inv w" and "calls w \<noteq> []" and "last (calls w) = PolicyCall"
    and "readBranch env p w = (c, w')"
  shows "progress w c w'"
proof (cases p)
  case (Array us)
  let ?w1 = "sendEvent (event Reading
               (''Reading '' @ showNat (length us) @ '' sources deeply...'') (step (state w))) w"
  have eq: "c = Next" "w' = readLoop env (take MAX_URLS_PER_STEP us) ?w1"
    using assms(4) Array by (simp_all add: readBranch_def)
  have "effect w ?w1" by (rule effect_sendEvent) simp_all
  then have "effect w w'"
    unfolding eq by (rule effect_trans) (rule effect_readLoop)
  with assms(1) eq show ?thesis by (simp add: progress_effect)
next
  case (NotArray l)
  let ?w1 = "sendEvent
               (event Reading (''Reading '' @ l @ '' sources deeply...'') (step (state w))) w"
  have eq: "c = Throw (ErrorObject (typeError env ''action.urlsToRead.slice''))" "w' = ?w1"
    using assms(4) NotArray by (simp_all add: readBranch_def)
  have "effect w ?w1" by (rule effect_sendEvent) simp_all
  with assms(1-3) show ?thesis
    unfolding eq by (rule progress_throw) simp
qed

lemma reflectBranch_progress:
  assumes "inv w" and "calls w \<noteq> []" and "last (calls w) = PolicyCall"
    and "reflectBranch env p w = (c, w')"
  shows "progress w c w'"
proof (cases p)
  case (Array gs)
  let ?w1 = "sendEvent (event Reflecting
               (''Identified '' @ showNat (length gs) @ '' knowledge gaps to investigate'')
               (step (state w))) w"
  have eq: "c = Next" "w' = readdOriginal (gapLoop gs ?w1)"
    using assms(4) Array by (simp_all add: reflectBranch_def)
  have "effect w ?w1" by (rule effect_sendEvent) simp_all
  then have "effect w (gapLoop gs ?w1)"
    by (rule effect_trans) (rule effect_gapLoop)
  then have "effect w w'"
    unfolding eq by (rule effect_trans) (rule effect_readdOriginal)
  with assms(1) eq show ?thesis by (simp add: progress_effect)
next
  case (NotArray l)
  let ?w1 = "sendEvent
               (event Reflecting (''Identified '' @ l @ '' knowledge gaps to investigate'')
                  (step (state w))) w"
  have eq: "c = Throw (ErrorObject (typeError env ''action.gapQuestions''))" "w' = ?w1"
    using assms(4) NotArray by (simp_all add: reflectBranch_def)
  have "effect w ?w1" by (rule effect_sendEvent) simp_all
  with assms(1-3) show ?thesis
    unfolding eq by (rule progress_throw) simp
qed

lemma dispatch_progress:
  assumes "inv w" and "calls w \<noteq> []" and "last (calls w) = PolicyCall"
    and "dispatch env topic a w = (c, w')"
  shows "progress w c w'"
proof -
  consider
    (search) p where "action a = ''search''" "searchQueries_a a = Some p"
  | (read) p where "action a = ''read''" "urlsToRead a = Some p"
  | (reflect) p where "action a = ''reflect''" "gapQuestions a = Some p"
  | (answer) "action a = ''answer''"
  | (other) "dispatch env topic a w = (Next, w)"
    by (cases "action a = ''search''"; cases "action a = ''read''"; cases "action a = ''reflect''";
        cases "action a = ''answer''"; cases "searchQueries_a a"; cases "urlsToRead a";
        cases "gapQuestions a"; simp add: dispatch_def)
  then show ?thesis
  proof cases
    case search
    then have "searchBranch env p w = (c, w')"
      using assms(4) by (simp add: dispatch_def)
    with assms(1-3) show ?thesis by (rule searchBranch_progress)
  next
    case read
    then have "readBranch env p w = (c, w')"
      using assms(4) by (simp add: dispatch_def)
    with assms(1-3) show ?thesis by (rule readBranch_progress)
  next
    case reflect
    then have "reflectBranch env p w = (c, w')"
      using assms(4) by (simp add: dispatch_def)
    with assms(1-3) show ?thesis by (rule reflectBranch_progress)
  next
    case answer
    then have "answerBranch env topic w = (c, w')"
      using assms(4) by (simp add: dispatch_def)
    with assms(1) show ?thesis by (rule answerBranch_progress)
  next
    case other
    with assms show ?thesis by (simp add: progress_def)
  qed
qed

text \<open>One iteration: the step counter and the number of policy calls go up by one.\<close>

definition advance :: "run \<Rightarrow> ctl \<Rightarrow> run \<Rightarrow> bool" where
  "advance w c w' \<longleftrightarrow>
     outcome c w'
   \<and> failedAttempts (state w') \<le> Suc (failedAttempts (state w))
   \<and> count_list (calls w') PolicyCall = Suc (count_list (calls w) PolicyCall)
   \<and> step (state w') = Suc (step (state w))"

lemma iteration_advance:
  assumes "inv w" and "iteration env topic w = (c, w')"
  shows "advance w c w'"
proof -
  let ?w3 = "beginStep w"
  let ?w4 = "logCall PolicyCall ?w3"
  have i3: "inv ?w3" using assms(1) by (rule inv_beginStep)
  have f4: "failing ?w4"
    using i3 by (simp add: failing_def inv_def unanswered_def)
  show ?thesis
  proof (cases "decide env ?w3")
    case (Inl e)
    then have eq: "c = Throw e" "w' = ?w4"
      using assms(2) by (simp_all add: iteration_def Let_def)
    from f4 show ?thesis
      unfolding eq by (simp add: advance_def)
  next
    case (Inr d)
    show ?thesis
    proof (cases d)
      case Null
      then have eq: "c = Throw (ErrorObject (typeError env ''action.reasoning''))" "w' = ?w4"
        using assms(2) Inr by (simp_all add: iteration_def Let_def)
      from f4 show ?thesis
        unfolding eq by (simp add: advance_def)
    next
      case (Object a)
      let ?think = "(event Thinking (reasoning a) (step (state ?w4)))
                      \<lparr>data := Some (ActionData (action a))\<rparr>"
      let ?w5 = "sendEvent ?think ?w4"
      have eq: "dispatch env topic a ?w5 = (c, w')"
        using assms(2) Inr Object by (simp add: iteration_def Let_def)
      have "inv ?w4" using i3 by simp
      then have "inv ?w5"
        by (rule inv_effect) (rule effect_sendEvent, simp_all)
      moreover have "calls ?w5 \<noteq> []" "last (calls ?w5) = PolicyCall" by simp_all
      ultimately have "progress ?w5 c w'"
        using eq by (rule dispatch_progress)
      then show ?thesis
        by (simp add: progress_def advance_def)
    qed
  qed
qed

lemma agentLoop_outcome:
  assumes "inv w" and "counted w"
    and "failedAttempts (state w) \<le> MAX_FAILED_ATTEMPTS"
    and "step (state w) \<le> MAX_STEPS"
    and "agentLoop env topic w = (c, w')"
  shows "outcome c w' \<and> counted w'
     \<and> failedAttempts (state w') \<le> MAX_FAILED_ATTEMPTS \<and> step (state w') \<le> MAX_STEPS"
  using assms
proof (induction env topic w arbitrary: c w' rule: agentLoop.induct)
  case (1 env topic w)
  show ?case
  proof (cases "step (state w) < MAX_STEPS \<and> failedAttempts (state w) < MAX_FAILED_ATTEMPTS")
    case False
    then have "c = Next" "w' = w"
      using "1.prems"(5) agentLoop_stop [OF False, of env topic] by simp_all
    with "1.prems" show ?thesis by simp
  next
    case True
    obtain c1 w1 where it: "iteration env topic w = (c1, w1)"
      by (cases "iteration env topic w")
    have adv: "advance w c1 w1"
      using "1.prems"(1) it by (rule iteration_advance)
    then have c1: "counted w1" and f1: "failedAttempts (state w1) \<le> MAX_FAILED_ATTEMPTS"
      and s1: "step (state w1) \<le> MAX_STEPS" and o1: "outcome c1 w1"
      using "1.prems"(2) True by (auto simp: advance_def counted_def)
    show ?thesis
    proof (cases c1)
      case Next
      then have "agentLoop env topic w1 = (c, w')"
        using "1.prems"(5) it agentLoop_go [OF True, of env topic] by simp
      moreover have "inv w1" using o1 Next by simp
      ultimately show ?thesis
        using "1.IH" [OF True it [symmetric] Next _ c1 f1 s1] by blast
    next
      case Return
      then have "c = Return" "w' = w1"
        using "1.prems"(5) it agentLoop_go [OF True, of env topic] by simp_all
      with o1 c1 f1 s1 Return show ?thesis by simp
    next
      case (Throw e)
      then have "c = Throw e" "w' = w1"
        using "1.prems"(5) it agentLoop_go [OF True, of env topic] by simp_all
      with o1 c1 f1 s1 Throw show ?thesis by simp
    qed
  qed
qed

text \<open>The run after the \<^verbatim>\<open>catch\<close> has sent its \<open>error\<close> event.\<close>

definition errored :: "run \<Rightarrow> bool" where
  "errored w \<longleftrightarrow>
     events w \<noteq> [] \<and> type (last (events w)) = Error
   \<and> (\<forall>e\<in>set (butlast (events w)). type e \<noteq> Answer \<and> type e \<noteq> Error)
   \<and> calls w \<noteq> [] \<and> SynthesisCall \<notin> set (butlast (calls w))
   \<and> (last (calls w) = SynthesisCall \<or> last (calls w) = PolicyCall)"

lemma afterLoop_outcome:
  assumes "inv w" and "afterLoop env topic w = (c, w')"
  shows "c \<noteq> Next \<and> outcome c w' \<and> (\<forall>e. c = Throw e \<longrightarrow> last (calls w') = SynthesisCall)
     \<and> failedAttempts (state w') = failedAttempts (state w)
     \<and> count_list (calls w') PolicyCall = count_list (calls w) PolicyCall
     \<and> step (state w') = step (state w)"
proof -
  let ?e = "event Thinking ''Reached maximum research depth. Synthesizing findings...''
              (step (state w))"
  let ?w1 = "sendEvent ?e w"
  let ?w2 = "logCall SynthesisCall ?w1"
  have i1: "inv ?w1"
    using assms(1) by (rule inv_effect) (rule effect_sendEvent, simp_all)
  have wo: "wellOrdered ?w2" and tr: "tracked ?w2"
    using i1 by (simp_all add: inv_def)
  have un: "\<forall>e\<in>set (events ?w2). type e \<noteq> Answer \<and> type e \<noteq> Error"
    "SynthesisCall \<notin> set (calls ?w1)"
    using i1 by (simp_all add: inv_def unanswered_def)
  show ?thesis
  proof (cases "synthesizeReport env (length (calls ?w1)) topic (knowledge (state ?w1))")
    case (Inl e)
    then have eq: "c = Throw e" "w' = ?w2"
      using assms(2) by (simp_all add: afterLoop_def Let_def)
    have "failing ?w2"
      using wo tr un by (simp add: failing_def)
    then show ?thesis
      unfolding eq by simp
  next
    case (Inr report)
    let ?a = "(event Answer ''Research complete (max depth reached)'' (step (state ?w2)))
                \<lparr>data := Some (ReportData report (stats (state ?w2)))\<rparr>"
    have eq: "c = Return" "w' = sendEvent ?a ?w2"
      using assms(2) Inr by (simp_all add: afterLoop_def Let_def)
    have "wellOrdered (sendEvent ?a ?w2)"
      using wo by (rule wellOrdered_sendEvent) simp
    then have "answered (sendEvent ?a ?w2)"
      using tr un by (simp add: answered_def butlast_append)
    then show ?thesis
      unfolding eq by simp
  qed
qed

lemma inv_initial: "inv (sendEvent (startEvent topic) (initialRun topic))"
  by (simp add: inv_def wellOrdered_def unanswered_def tracked_def searchAnswers_def pagesRead_def startEvent_def
      initialRun_def initialState_def)

lemma counted_initial: "counted (sendEvent (startEvent topic) (initialRun topic))"
  by (simp add: counted_def initialRun_def initialState_def)

lemma failing_catchHandler:
  assumes "failing w"
  shows "wellOrdered (catchHandler e w) \<and> tracked (catchHandler e w) \<and> errored (catchHandler e w)"
proof -
  let ?ev = "\<lparr>type = Error,
        message = ''Error: '' @ (case e of ErrorObject m \<Rightarrow> m | NonError \<Rightarrow> ''Unknown error''),
        data = None, step_e = None, totalSteps = None\<rparr>"
  have wo: "wellOrdered (sendEvent ?ev w)"
    using assms by (intro wellOrdered_sendEvent) (simp_all add: failing_def)
  have "errored (sendEvent ?ev w)"
    using assms by (simp add: failing_def errored_def)
  with wo assms show ?thesis
    by (simp add: catchHandler_def failing_def)
qed

text \<open>What holds of a run when the stream is closed.\<close>

lemma start_final:
  "wellOrdered (start env topic) \<and> tracked (start env topic) \<and> counted (start env topic)
   \<and> failedAttempts (state (start env topic)) \<le> MAX_FAILED_ATTEMPTS
   \<and> step (state (start env topic)) \<le> MAX_STEPS
   \<and> (answered (start env topic) \<or> errored (start env topic))"
proof -
  let ?w0 = "sendEvent (startEvent topic) (initialRun topic)"
  obtain c1 w1 where loop: "agentLoop env topic ?w0 = (c1, w1)"
    by (cases "agentLoop env topic ?w0")
  have o1: "outcome c1 w1" and k1: "counted w1"
    and f1: "failedAttempts (state w1) \<le> MAX_FAILED_ATTEMPTS" and s1: "step (state w1) \<le> MAX_STEPS"
    using agentLoop_outcome [OF inv_initial counted_initial _ _ loop]
    by (simp_all add: initialRun_def initialState_def)
  obtain c2 w2 where after: "(case c1 of Next \<Rightarrow> afterLoop env topic w1
       | Return \<Rightarrow> (Return, w1) | Throw e \<Rightarrow> (Throw e, w1)) = (c2, w2)"
    by (cases "case c1 of Next \<Rightarrow> afterLoop env topic w1
       | Return \<Rightarrow> (Return, w1) | Throw e \<Rightarrow> (Throw e, w1)")
  have two: "c2 \<noteq> Next \<and> outcome c2 w2 \<and> counted w2
     \<and> failedAttempts (state w2) \<le> MAX_FAILED_ATTEMPTS \<and> step (state w2) \<le> MAX_STEPS"
  proof (cases c1)
    case Next
    then have "afterLoop env topic w1 = (c2, w2)" "inv w1"
      using after o1 by simp_all
    from afterLoop_outcome [OF this(2) this(1)] k1 f1 s1 show ?thesis
      by (simp add: counted_def)
  next
    case Return
    with after o1 k1 f1 s1 show ?thesis by auto
  next
    case (Throw e)
    with after o1 k1 f1 s1 show ?thesis by auto
  qed
  have st: "start env topic = (case c2 of Throw e \<Rightarrow> catchHandler e w2 | _ \<Rightarrow> w2)"
    using loop after by (simp add: start_def split: ctl.splits prod.splits)
  show ?thesis
  proof (cases c2)
    case Next
    with two show ?thesis by simp
  next
    case Return
    with two st show ?thesis by (simp add: answered_def)
  next
    case (Throw e)
    with two have "failing w2" by simp
    from failing_catchHandler [OF this, of e] two st Throw show ?thesis
      by (simp add: counted_def catchHandler_def)
  qed
qed

subsection \<open>What one decision adds\<close>

lemma searchOne_new:
  "\<exists>ks. calls (searchOne env q w) = calls w @ [SearchCall q]
     \<and> knowledge (state (searchOne env q w)) = knowledge (state w) @ ks
     \<and> (\<forall>k\<in>set ks. question_k k = q \<and> type_k k = search)
     \<and> length ks \<le> 1
     \<and> searchQueries (state (searchOne env q w)) = Set_add (searchQueries (state w)) q"
  by (simp add: searchOne_def Let_def)

lemma searchLoop_new:
  "\<exists>cs ks. calls (searchLoop env qs w) = calls w @ cs
     \<and> knowledge (state (searchLoop env qs w)) = knowledge (state w) @ ks
     \<and> (\<forall>c\<in>set cs. \<exists>q\<in>set qs. c = SearchCall q \<and> \<not> Set_has (searchQueries (state w)) q)
     \<and> (\<forall>k\<in>set ks. question_k k \<in> set qs
           \<and> \<not> Set_has (searchQueries (state w)) (question_k k) \<and> type_k k = search)
     \<and> set (searchQueries (state w)) \<subseteq> set (searchQueries (state (searchLoop env qs w)))"
proof (induction qs arbitrary: w)
  case Nil
  show ?case by simp
next
  case (Cons q qs)
  show ?case
  proof (cases "Set_has (searchQueries (state w)) q")
    case True
    from Cons.IH [of w] obtain cs ks where
      "calls (searchLoop env qs w) = calls w @ cs"
      "knowledge (state (searchLoop env qs w)) = knowledge (state w) @ ks"
      "\<forall>c\<in>set cs. \<exists>q\<in>set qs. c = SearchCall q \<and> \<not> Set_has (searchQueries (state w)) q"
      "\<forall>k\<in>set ks. question_k k \<in> set qs
           \<and> \<not> Set_has (searchQueries (state w)) (question_k k) \<and> type_k k = search"
      "set (searchQueries (state w)) \<subseteq> set (searchQueries (state (searchLoop env qs w)))"
      by blast
    with True show ?thesis
      by (intro exI [of _ cs] exI [of _ ks]) auto
  next
    case False
    let ?w1 = "searchOne env q w"
    from searchOne_new [of env q w] obtain k1 where one:
      "calls ?w1 = calls w @ [SearchCall q]"
      "knowledge (state ?w1) = knowledge (state w) @ k1"
      "\<forall>k\<in>set k1. question_k k = q \<and> type_k k = search"
      "searchQueries (state ?w1) = Set_add (searchQueries (state w)) q"
      by blast
    from Cons.IH [of ?w1] obtain cs ks where rest:
      "calls (searchLoop env qs ?w1) = calls ?w1 @ cs"
      "knowledge (state (searchLoop env qs ?w1)) = knowledge (state ?w1) @ ks"
      "\<forall>c\<in>set cs. \<exists>q\<in>set qs. c = SearchCall q \<and> \<not> Set_has (searchQueries (state ?w1)) q"
      "\<forall>k\<in>set ks. question_k k \<in> set qs
           \<and> \<not> Set_has (searchQueries (state ?w1)) (question_k k) \<and> type_k k = search"
      "set (searchQueries (state ?w1)) \<subseteq> set (searchQueries (state (searchLoop env qs ?w1)))"
      by blast
    have sub: "\<And>x. \<not> Set_has (searchQueries (state ?w1)) x \<Longrightarrow> \<not> Set_has (searchQueries (state w)) x"
      by (auto simp: one(4) Set_has_def Set_add_def split: if_splits)
    have "calls (searchLoop env (q # qs) w) = calls w @ (SearchCall q # cs)"
      using False rest(1) one(1) by simp
    moreover have "knowledge (state (searchLoop env (q # qs) w)) = knowledge (state w) @ (k1 @ ks)"
      using False rest(2) one(2) by simp
    moreover have "\<forall>c\<in>set (SearchCall q # cs). \<exists>q'\<in>set (q # qs). c = SearchCall q'
         \<and> \<not> Set_has (searchQueries (state w)) q'"
      using False rest(3) sub by auto
    moreover have "\<forall>k\<in>set (k1 @ ks). question_k k \<in> set (q # qs)
           \<and> \<not> Set_has (searchQueries (state w)) (question_k k) \<and> type_k k = search"
      using False one(3) rest(4) sub by auto
    moreover have "set (searchQueries (state w)) \<subseteq> set (searchQueries (state (searchLoop env (q # qs) w)))"
      using False rest(5) by (auto simp: one(4) Set_add_def Set_has_def)
    ultimately show ?thesis by blast
  qed
qed

lemma readOne_new:
  "\<exists>ks. calls (readOne env u w) = calls w @ [ExtractCall u]
     \<and> knowledge (state (readOne env u w)) = knowledge (state w) @ ks
     \<and> (\<forall>k\<in>set ks. answer k \<noteq> [] \<and> type_k k = url_type \<and> sources k = [u]
           \<and> question_k k = ''Content from '' @ u
           \<and> (\<exists>t. readUrl (extractApi env t u) = Some (answer k)))
     \<and> length ks \<le> 1
     \<and> visitedUrls (state (readOne env u w)) = Set_add (visitedUrls (state w)) u"
  by (auto simp: readOne_def Let_def split: option.split)

lemma readLoop_new:
  "\<exists>cs ks. calls (readLoop env us w) = calls w @ cs
     \<and> knowledge (state (readLoop env us w)) = knowledge (state w) @ ks
     \<and> length cs \<le> length us \<and> length ks \<le> length cs
     \<and> (\<forall>c\<in>set cs. \<exists>u\<in>set us. c = ExtractCall u \<and> \<not> Set_has (visitedUrls (state w)) u)
     \<and> (\<forall>k\<in>set ks. answer k \<noteq> [] \<and> type_k k = url_type
           \<and> (\<exists>u t. ExtractCall u \<in> set cs \<and> sources k = [u]
                 \<and> readUrl (extractApi env t u) = Some (answer k)))"
proof (induction us arbitrary: w)
  case Nil
  show ?case by simp
next
  case (Cons u us)
  show ?case
  proof (cases "Set_has (visitedUrls (state w)) u")
    case True
    from Cons.IH [of w] obtain cs ks where
      "calls (readLoop env us w) = calls w @ cs"
      "knowledge (state (readLoop env us w)) = knowledge (state w) @ ks"
      "length cs \<le> length us" "length ks \<le> length cs"
      "\<forall>c\<in>set cs. \<exists>u\<in>set us. c = ExtractCall u \<and> \<not> Set_has (visitedUrls (state w)) u"
      "\<forall>k\<in>set ks. answer k \<noteq> [] \<and> type_k k = url_type
           \<and> (\<exists>u t. ExtractCall u \<in> set cs \<and> sources k = [u]
                 \<and> readUrl (extractApi env t u) = Some (answer k))"
      by blast
    with True show ?thesis
      by (intro exI [of _ cs] exI [of _ ks]) auto
  next
    case False
    let ?w1 = "readOne env u w"
    from readOne_new [of env u w] obtain k1 where one:
      "calls ?w1 = calls w @ [ExtractCall u]"
      "knowledge (state ?w1) = knowledge (state w) @ k1"
      "\<forall>k\<in>set k1. answer k \<noteq> [] \<and> type_k k = url_type \<and> sources k = [u]
           \<and> question_k k = ''Content from '' @ u
           \<and> (\<exists>t. readUrl (extractApi env t u) = Some (answer k))"
      "length k1 \<le> 1"
      "visitedUrls (state ?w1) = Set_add (visitedUrls (state w)) u"
      by blast
    from Cons.IH [of ?w1] obtain cs ks where rest:
      "calls (readLoop env us ?w1) = calls ?w1 @ cs"
      "knowledge (state (readLoop env us ?w1)) = knowledge (state ?w1) @ ks"
      "length cs \<le> length us" "length ks \<le> length cs"
      "\<forall>c\<in>set cs. \<exists>u\<in>set us. c = ExtractCall u \<and> \<not> Set_has (visitedUrls (state ?w1)) u"
      "\<forall>k\<in>set ks. answer k \<noteq> [] \<and> type_k k = url_type
           \<and> (\<exists>u t. ExtractCall u \<in> set cs \<and> sources k = [u]
                 \<and> readUrl (extractApi env t u) = Some (answer k))"
      by blast
    have sub: "\<And>x. \<not> Set_has (visitedUrls (state ?w1)) x \<Longrightarrow> \<not> Set_has (visitedUrls (state w)) x"
      by (auto simp: one(5) Set_has_def Set_add_def split: if_splits)
    have "calls (readLoop env (u # us) w) = calls w @ (ExtractCall u # cs)"
      using False rest(1) one(1) by simp
    moreover have "knowledge (state (readLoop env (u # us) w)) = knowledge (state w) @ (k1 @ ks)"
      using False rest(2) one(2) by simp
    moreover have "length (ExtractCall u # cs) \<le> length (u # us)"
      using rest(3) by simp
    moreover have "length (k1 @ ks) \<le> length (ExtractCall u # cs)"
      using rest(4) one(4) by simp
    moreover have "\<forall>c\<in>set (ExtractCall u # cs). \<exists>u'\<in>set (u # us). c = ExtractCall u'
         \<and> \<not> Set_has (visitedUrls (state w)) u'"
      using False rest(5) sub by auto
    moreover have "\<forall>k\<in>set (k1 @ ks). answer k \<noteq> [] \<and> type_k k = url_type
           \<and> (\<exists>u' t. ExtractCall u' \<in> set (ExtractCall u # cs) \<and> sources k = [u']
                 \<and> readUrl (extractApi env t u') = Some (answer k))"
      using one(3) rest(6) by simp blast
    ultimately show ?thesis by blast
  qed
qed

section \<open>Termination, synthesis and the final event\<close>











section \<open>The order of the events\<close>

text \<open>
  C8. In the events of a run that is not cancelled, the steps the events carry never
  decrease in the order of emission, and the last event is an \<open>answer\<close> or an \<open>error\<close>.
\<close>

theorem event_ordering:
  "sorted (eventSteps (events (start env topic)))
   \<and> events (start env topic) \<noteq> []
   \<and> (type (last (events (start env topic))) = Answer
        \<or> type (last (events (start env topic))) = Error)"
  using start_final [of env topic]
  by (auto simp: wellOrdered_def answered_def errored_def)

theorem event_ordering_witness:
  "eventSteps (events (start (exampleEnv (\<lambda>n. Ok answerNow)) ''X''))
     = [0, 1, 1, 1, 2, 2, 2, 3, 3, 3, 3, 3]
   \<and> sorted (eventSteps (events (start (exampleEnv (\<lambda>n. Ok answerNow)) ''X'')))
   \<and> type (last (events (start (exampleEnv (\<lambda>n. Ok answerNow)) ''X''))) = Answer"
proof -
  have v: "eventSteps (events (start (exampleEnv (\<lambda>n. Ok answerNow)) ''X''))
     = [0, 1, 1, 1, 2, 2, 2, 3, 3, 3, 3, 3]
   \<and> type (last (events (start (exampleEnv (\<lambda>n. Ok answerNow)) ''X''))) = Answer"
    by code_simp
  with event_ordering [of "exampleEnv (\<lambda>n. Ok answerNow)" "''X''"] show ?thesis
    by blast
qed


section \<open>No duplicate search, no duplicate visit\<close>

text \<open>
  C6. In a run, no query is given to the Search Provider twice, and no query has two
  knowledge items. At any point of a run, a \<open>search\<close> decision calls the provider for
  no query that is already in \<^verbatim>\<open>searchQueries\<close> and creates no knowledge item for it.
\<close>

theorem no_duplicate_search:
  "distinct (searchCalls (calls (start env topic)))
   \<and> distinct (searchAnswers (state (start env topic)))
   \<and> (action a = ''search'' \<and> searchQueries_a a = Some (Array qs) \<longrightarrow>
        (\<exists>w' cs ks. dispatch env topic a w = (Next, w')
           \<and> calls w' = calls w @ cs
           \<and> knowledge (state w') = knowledge (state w) @ ks
           \<and> (\<forall>q. Set_has (searchQueries (state w)) q \<longrightarrow>
                 SearchCall q \<notin> set cs \<and> (\<forall>k\<in>set ks. question_k k \<noteq> q))))"
proof -
  have "tracked (start env topic)"
    using start_final [of env topic] by simp
  then have glob: "distinct (searchCalls (calls (start env topic)))"
    "distinct (searchAnswers (state (start env topic)))"
    by (simp_all add: tracked_def)
  have loc: "\<exists>w' cs ks. dispatch env topic a w = (Next, w')
           \<and> calls w' = calls w @ cs
           \<and> knowledge (state w') = knowledge (state w) @ ks
           \<and> (\<forall>q. Set_has (searchQueries (state w)) q \<longrightarrow>
                 SearchCall q \<notin> set cs \<and> (\<forall>k\<in>set ks. question_k k \<noteq> q))"
    if a: "action a = ''search''" "searchQueries_a a = Some (Array qs)"
  proof -
    let ?w1 = "sendEvent (event Searching (''Searching: '' @ join '' | '' qs) (step (state w))) w"
    from searchLoop_new [of env qs ?w1] obtain cs ks where new:
      "calls (searchLoop env qs ?w1) = calls ?w1 @ cs"
      "knowledge (state (searchLoop env qs ?w1)) = knowledge (state ?w1) @ ks"
      "\<forall>c\<in>set cs. \<exists>q\<in>set qs. c = SearchCall q \<and> \<not> Set_has (searchQueries (state ?w1)) q"
      "\<forall>k\<in>set ks. question_k k \<in> set qs
           \<and> \<not> Set_has (searchQueries (state ?w1)) (question_k k) \<and> type_k k = search"
      by blast
    have "dispatch env topic a w = (Next, searchLoop env qs ?w1)"
      using a by (simp add: dispatch_def searchBranch_def)
    moreover have "\<forall>q. Set_has (searchQueries (state w)) q \<longrightarrow>
                 SearchCall q \<notin> set cs \<and> (\<forall>k\<in>set ks. question_k k \<noteq> q)"
      using new(3,4) by auto
    ultimately show ?thesis
      using new(1,2) by auto
  qed
  from glob loc show ?thesis by blast
qed

text \<open>
  The policy proposes the query \<open>X\<close> at steps 1 and 2: the second proposal calls nobody
  and adds no knowledge, and the whole run has searched \<open>X\<close> once.
\<close>

theorem no_duplicate_search_witness:
  "action searchXAction = ''search'' \<and> searchQueries_a searchXAction = Some (Array [''X''])
   \<and> Set_has (searchQueries
         (state (snd (iteration (exampleEnv (thenAnswer searchX)) ''X'' exampleRun)))) ''X''
   \<and> (\<exists>w' cs ks.
         dispatch (exampleEnv (thenAnswer searchX)) ''X'' searchXAction
           (snd (iteration (exampleEnv (thenAnswer searchX)) ''X'' exampleRun)) = (Next, w')
       \<and> calls w' = calls (snd (iteration (exampleEnv (thenAnswer searchX)) ''X'' exampleRun)) @ cs
       \<and> knowledge (state w')
           = knowledge (state (snd (iteration (exampleEnv (thenAnswer searchX)) ''X'' exampleRun))) @ ks
       \<and> SearchCall ''X'' \<notin> set cs \<and> (\<forall>k\<in>set ks. question_k k \<noteq> ''X''))
   \<and> distinct (searchCalls (calls (start (exampleEnv (thenAnswer searchX)) ''X'')))
   \<and> searchCalls (calls (start (exampleEnv (thenAnswer searchX)) ''X'')) = [''X'']
   \<and> searchAnswers (state (start (exampleEnv (thenAnswer searchX)) ''X'')) = [''X'']"
proof -
  let ?env = "exampleEnv (thenAnswer searchX)"
  let ?w1 = "snd (iteration ?env ''X'' exampleRun)"
  have h: "action searchXAction = ''search'' \<and> searchQueries_a searchXAction = Some (Array [''X''])"
    by (simp add: searchXAction_def noAction_def)
  have s: "Set_has (searchQueries (state ?w1)) ''X''"
    by code_simp
  have v: "searchCalls (calls (start ?env ''X'')) = [''X'']
     \<and> searchAnswers (state (start ?env ''X'')) = [''X'']"
    by code_simp
  from no_duplicate_search [of ?env "''X''" searchXAction "[''X'']" ?w1] h
  obtain w' cs ks where
    d: "distinct (searchCalls (calls (start ?env ''X'')))"
    and l: "dispatch ?env ''X'' searchXAction ?w1 = (Next, w')"
      "calls w' = calls ?w1 @ cs" "knowledge (state w') = knowledge (state ?w1) @ ks"
      "\<forall>q. Set_has (searchQueries (state ?w1)) q \<longrightarrow>
          SearchCall q \<notin> set cs \<and> (\<forall>k\<in>set ks. question_k k \<noteq> q)"
    by blast
  from l(4) s have "SearchCall ''X'' \<notin> set cs \<and> (\<forall>k\<in>set ks. question_k k \<noteq> ''X'')"
    by blast
  with h s v d l(1-3) show ?thesis by blast
qed

text \<open>
  C7. In a run, no URL is given to the Content Extractor twice, and no URL has two
  knowledge items. At any point of a run, a \<open>read\<close> decision extracts at most
  \<open>MAX_URLS_PER_STEP\<close> URLs, all among the first \<open>MAX_URLS_PER_STEP\<close> entries of the
  proposed list and none visited before, and each knowledge item it creates holds the
  non-empty content extracted from one of them.
\<close>

theorem no_duplicate_visit:
  "distinct (extractCalls (calls (start env topic)))
   \<and> distinct (pagesRead (state (start env topic)))
   \<and> (action a = ''read'' \<and> urlsToRead a = Some (Array us) \<longrightarrow>
        (\<exists>w' cs ks. dispatch env topic a w = (Next, w')
           \<and> calls w' = calls w @ cs
           \<and> knowledge (state w') = knowledge (state w) @ ks
           \<and> length cs \<le> MAX_URLS_PER_STEP
           \<and> (\<forall>c\<in>set cs. \<exists>u\<in>set (take MAX_URLS_PER_STEP us).
                 c = ExtractCall u \<and> \<not> Set_has (visitedUrls (state w)) u)
           \<and> length ks \<le> length cs
           \<and> (\<forall>k\<in>set ks. answer k \<noteq> [] \<and> type_k k = url_type
                 \<and> (\<exists>u t. ExtractCall u \<in> set cs \<and> sources k = [u]
                       \<and> readUrl (extractApi env t u) = Some (answer k)))))"
proof -
  have "tracked (start env topic)"
    using start_final [of env topic] by simp
  then have glob: "distinct (extractCalls (calls (start env topic)))"
    "distinct (pagesRead (state (start env topic)))"
    by (simp_all add: tracked_def)
  have loc: "\<exists>w' cs ks. dispatch env topic a w = (Next, w')
           \<and> calls w' = calls w @ cs
           \<and> knowledge (state w') = knowledge (state w) @ ks
           \<and> length cs \<le> MAX_URLS_PER_STEP
           \<and> (\<forall>c\<in>set cs. \<exists>u\<in>set (take MAX_URLS_PER_STEP us).
                 c = ExtractCall u \<and> \<not> Set_has (visitedUrls (state w)) u)
           \<and> length ks \<le> length cs
           \<and> (\<forall>k\<in>set ks. answer k \<noteq> [] \<and> type_k k = url_type
                 \<and> (\<exists>u t. ExtractCall u \<in> set cs \<and> sources k = [u]
                       \<and> readUrl (extractApi env t u) = Some (answer k)))"
    if a: "action a = ''read''" "urlsToRead a = Some (Array us)"
  proof -
    let ?w1 = "sendEvent (event Reading
                 (''Reading '' @ showNat (length us) @ '' sources deeply...'') (step (state w))) w"
    let ?us = "take MAX_URLS_PER_STEP us"
    from readLoop_new [of env ?us ?w1] obtain cs ks where new:
      "calls (readLoop env ?us ?w1) = calls ?w1 @ cs"
      "knowledge (state (readLoop env ?us ?w1)) = knowledge (state ?w1) @ ks"
      "length cs \<le> length ?us" "length ks \<le> length cs"
      "\<forall>c\<in>set cs. \<exists>u\<in>set ?us. c = ExtractCall u \<and> \<not> Set_has (visitedUrls (state ?w1)) u"
      "\<forall>k\<in>set ks. answer k \<noteq> [] \<and> type_k k = url_type
           \<and> (\<exists>u t. ExtractCall u \<in> set cs \<and> sources k = [u]
                 \<and> readUrl (extractApi env t u) = Some (answer k))"
      by blast
    have d: "dispatch env topic a w = (Next, readLoop env ?us ?w1)"
      using a by (simp add: dispatch_def readBranch_def)
    have l: "length cs \<le> MAX_URLS_PER_STEP"
      using new(3) by simp
    show ?thesis
      apply (rule exI [of _ "readLoop env ?us ?w1"])
      apply (rule exI [of _ cs])
      apply (rule exI [of _ ks])
      using d l new by simp
  qed
  from glob loc show ?thesis by blast
qed

text \<open>
  The policy proposes five URLs, the first and the third the same, at steps 1 and 2: the
  first decision extracts the first two, the second none, and the run has two pages.
\<close>

theorem no_duplicate_visit_witness:
  "action readFiveAction = ''read''
   \<and> urlsToRead readFiveAction = Some (Array [''https://e.org/1'', ''https://e.org/2'',
        ''https://e.org/1'', ''https://e.org/3'', ''https://e.org/4''])
   \<and> (\<exists>cs. calls (snd (dispatch (exampleEnv (thenAnswer readFive)) ''X'' readFiveAction
                exampleRun)) = calls exampleRun @ cs
          \<and> length cs \<le> MAX_URLS_PER_STEP)
   \<and> calls (snd (dispatch (exampleEnv (thenAnswer readFive)) ''X'' readFiveAction exampleRun))
       = [ExtractCall ''https://e.org/1'', ExtractCall ''https://e.org/2'']
   \<and> distinct (extractCalls (calls (start (exampleEnv (thenAnswer readFive)) ''X'')))
   \<and> extractCalls (calls (start (exampleEnv (thenAnswer readFive)) ''X''))
       = [''https://e.org/1'', ''https://e.org/2'']
   \<and> pagesRead (state (start (exampleEnv (thenAnswer readFive)) ''X''))
       = [''https://e.org/1'', ''https://e.org/2'']"
proof -
  let ?env = "exampleEnv (thenAnswer readFive)"
  have h: "action readFiveAction = ''read''
    \<and> urlsToRead readFiveAction = Some (Array [''https://e.org/1'', ''https://e.org/2'',
        ''https://e.org/1'', ''https://e.org/3'', ''https://e.org/4''])"
    by (simp add: readFiveAction_def noAction_def)
  have v1: "calls (snd (dispatch ?env ''X'' readFiveAction exampleRun))
       = [ExtractCall ''https://e.org/1'', ExtractCall ''https://e.org/2'']"
    by code_simp
  have v2: "extractCalls (calls (start ?env ''X'')) = [''https://e.org/1'', ''https://e.org/2'']
     \<and> pagesRead (state (start ?env ''X'')) = [''https://e.org/1'', ''https://e.org/2'']"
    by code_simp
  from no_duplicate_visit [of ?env "''X''" readFiveAction _ exampleRun] h
  obtain w' cs where
    d: "distinct (extractCalls (calls (start ?env ''X'')))"
    and l: "dispatch ?env ''X'' readFiveAction exampleRun = (Next, w')"
      "calls w' = calls exampleRun @ cs" "length cs \<le> MAX_URLS_PER_STEP"
    by blast
  from l have "\<exists>cs. calls (snd (dispatch ?env ''X'' readFiveAction exampleRun))
      = calls exampleRun @ cs \<and> length cs \<le> MAX_URLS_PER_STEP"
    by auto
  with h v1 v2 d show ?thesis by blast
qed

section \<open>The original question in the queue\<close>

text \<open>
  The step, the original question, the question under investigation and the questions
  queued.
\<close>

definition focus :: "run \<Rightarrow> nat \<times> string \<times> string \<times> string list" where
  "focus w =
     (step (state w), originalQuestion (state w), currentQuestion (state w),
      map question (gaps (state w)))"

text \<open>
  What C1 asks of a run: the original question is asked by a queued gap or is the
  question under investigation.
\<close>

definition originalKept :: "run \<Rightarrow> bool" where
  "originalKept w \<longleftrightarrow>
     list_ex (\<lambda>g. question g = originalQuestion (state w)) (gaps (state w))
   \<or> currentQuestion (state w) = originalQuestion (state w)"

text \<open>
  C1 does not hold of the code. The policy reflects at step 1 (gap \<open>A\<close>) and at step 3
  (gap \<open>B\<close>) and searches otherwise, on the topic \<open>X\<close>. The second reflection finds \<open>X\<close>
  in the queue and does not move it to the end, whatever the comment
  \<^verbatim>\<open>// Always add original question back to the end\<close> says; \<open>B\<close> is queued behind it. At
  the end of step 5 the queue is empty and the question is \<open>B\<close>, and so it stays until
  the run ends at step 25.
\<close>

theorem gap_starvation_drift:
  "map (\<lambda>n. focus (snd (iterations (offlineEnv driftPolicy) ''X'' n exampleRun))) [1, 2, 3, 4, 5]
     = [(1, ''X'', ''X'', [''A'', ''X'']), (2, ''X'', ''X'', [''A'', ''X'']),
        (3, ''X'', ''A'', [''X'', ''B'']), (4, ''X'', ''X'', [''B'']), (5, ''X'', ''B'', [])]
   \<and> \<not> originalKept (snd (iterations (offlineEnv driftPolicy) ''X'' 5 exampleRun))
   \<and> focus (start (offlineEnv driftPolicy) ''X'') = (25, ''X'', ''B'', [])
   \<and> \<not> originalKept (start (offlineEnv driftPolicy) ''X'')"
proof -
  let ?w5 = "snd (iterations (offlineEnv driftPolicy) ''X'' 5 exampleRun)"
  let ?w = "start (offlineEnv driftPolicy) ''X''"
  have a: "map (\<lambda>n. focus (snd (iterations (offlineEnv driftPolicy) ''X'' n exampleRun)))
      [1, 2, 3, 4, 5]
     = [(1, ''X'', ''X'', [''A'', ''X'']), (2, ''X'', ''X'', [''A'', ''X'']),
        (3, ''X'', ''A'', [''X'', ''B'']), (4, ''X'', ''X'', [''B'']), (5, ''X'', ''B'', [])]"
    by code_simp
  have b: "focus ?w = (25, ''X'', ''B'', [])"
    by code_simp
  from a have "focus ?w5 = (5, ''X'', ''B'', [])" by simp
  then have c: "\<not> originalKept ?w5"
    by (simp add: focus_def originalKept_def)
  from b have d: "\<not> originalKept ?w"
    by (simp add: focus_def originalKept_def)
  from a b c d show ?thesis by (intro conjI)
qed

end
